theory Spec2Isabelle
  imports Complex_Main "HOL-Library.Signed_Division"
begin

section \<open>The conjugate-symmetry fill of \<^verbatim>\<open>SpectralOps.cpp\<close>\<close>

text \<open>
  The slice routine walks raw pointers over two strided buffers. Pointers are modelled as
  integer addresses (in elements of \<^verbatim>\<open>scalar_t\<close>) into one store, so that the input and
  the output buffer may overlap as they may in C++. The element type is \<^typ>\<open>complex\<close>
  and \<^verbatim>\<open>std::conj\<close> is \<^const>\<open>cnj\<close>. 64-bit signed integers are modelled by
  \<^typ>\<open>int\<close> (signed overflow is undefined in C++); \<^verbatim>\<open>/\<close> and \<^verbatim>\<open>%\<close> truncate towards
  zero and are \<open>sdiv\<close> and \<open>smod\<close>. Reading an array outside its bounds and dividing by
  zero are undefined in C++: the theorems below assume arrays of \<open>ndim\<close> entries and
  positive extents.

  Besides the store, the state records every assignment
  \<^verbatim>\<open>out_ptr[..] = std::conj(in_ptr[..])\<close> that was executed, as the pair of the address
  written and the address read, in execution order.
\<close>

record fill_state =
  iter_index :: "int list"
  in_ptr :: int
  out_ptr :: int
  mem :: "int \<Rightarrow> complex"
  writes :: "(int \<times> int) list"

record Range =
  range_begin :: int
  range_end :: int

text \<open>One assignment \<^verbatim>\<open>*dst = std::conj(*src)\<close>.\<close>

definition store_conj :: "fill_state \<Rightarrow> int \<Rightarrow> int \<Rightarrow> fill_state" where
  "store_conj st dst src =
     st\<lparr>mem := (mem st)(dst := cnj (mem st src)), writes := writes st @ [(dst, src)]\<rparr>"

text \<open>The lambda \<^verbatim>\<open>advance_index\<close> (lines 64-89): the body of its \<^verbatim>\<open>for\<close> loop from \<open>i\<close>.\<close>

function advance_index_from ::
  "bool list \<Rightarrow> int list \<Rightarrow> int list \<Rightarrow> int list \<Rightarrow> nat \<Rightarrow> fill_state \<Rightarrow> fill_state" where
  "advance_index_from is_mirrored_dim signal_half_sizes in_strides out_strides i st =
     (if i < length (iter_index st) then
        (if iter_index st ! i + 1 < signal_half_sizes ! i then
           (let idx = (iter_index st)[i := iter_index st ! i + 1] in
            st\<lparr>iter_index := idx,
               in_ptr := in_ptr st + in_strides ! i,
               out_ptr :=
                 (if is_mirrored_dim ! i then
                    (if idx ! i = 1
                     then out_ptr st + (signal_half_sizes ! i - 1) * out_strides ! i
                     else out_ptr st - out_strides ! i)
                  else out_ptr st + out_strides ! i)\<rparr>)
         else
           advance_index_from is_mirrored_dim signal_half_sizes in_strides out_strides (Suc i)
             (st\<lparr>in_ptr := in_ptr st - in_strides ! i * iter_index st ! i,
                 out_ptr :=
                   (if is_mirrored_dim ! i then out_ptr st - out_strides ! i
                    else out_ptr st - out_strides ! i * iter_index st ! i),
                 iter_index := (iter_index st)[i := 0]\<rparr>))
      else st)"
  by pat_completeness auto
termination
  by (relation "measure (\<lambda>(m, hs, is, os, i, st). length (iter_index st) - i)") auto

declare advance_index_from.simps [simp del]

definition advance_index ::
  "bool list \<Rightarrow> int list \<Rightarrow> int list \<Rightarrow> int list \<Rightarrow> fill_state \<Rightarrow> fill_state" where
  "advance_index is_mirrored_dim signal_half_sizes in_strides out_strides st =
     advance_index_from is_mirrored_dim signal_half_sizes in_strides out_strides 1 st"

text \<open>The loop of lines 97-109 that rebuilds the index and the pointers of a slice that
  starts part-way into the data.\<close>

function seek_from ::
  "bool list \<Rightarrow> int list \<Rightarrow> int list \<Rightarrow> int list \<Rightarrow> nat \<Rightarrow> int \<Rightarrow> fill_state \<Rightarrow> fill_state" where
  "seek_from is_mirrored_dim signal_half_sizes in_strides out_strides i linear_idx st =
     (if i < length signal_half_sizes \<and> linear_idx > 0 then
        (let v = linear_idx smod signal_half_sizes ! i;
             st1 = st\<lparr>iter_index := (iter_index st)[i := v]\<rparr>;
             st2 = (if v > 0 then
                      st1\<lparr>in_ptr := in_ptr st1 + in_strides ! i * v,
                          out_ptr :=
                            (if is_mirrored_dim ! i
                             then out_ptr st1 + out_strides ! i * (signal_half_sizes ! i - v)
                             else out_ptr st1 + out_strides ! i * v)\<rparr>
                    else st1)
         in seek_from is_mirrored_dim signal_half_sizes in_strides out_strides (Suc i)
              (linear_idx sdiv signal_half_sizes ! i) st2)
      else st)"
  by pat_completeness auto
termination
  by (relation "measure (\<lambda>(m, hs, is, os, i, l, st). length hs - i)") auto

declare seek_from.simps [simp del]

text \<open>The two \<^verbatim>\<open>for\<close> loops over a mirrored row (lines 118-120 and 129-131), from \<open>i\<close>
  up to \<open>e\<close>.\<close>

function mirror_row :: "int \<Rightarrow> int \<Rightarrow> int \<Rightarrow> int \<Rightarrow> int \<Rightarrow> fill_state \<Rightarrow> fill_state" where
  "mirror_row size0 in_stride0 out_stride0 i e st =
     (if i < e then
        mirror_row size0 in_stride0 out_stride0 (i + 1) e
          (store_conj st (out_ptr st + (size0 - i) * out_stride0) (in_ptr st + i * in_stride0))
      else st)"
  by pat_completeness auto
termination
  by (relation "measure (\<lambda>(s, a, b, i, e, st). nat (e - i))") auto

declare mirror_row.simps [simp del]

text \<open>The \<^verbatim>\<open>for\<close> loop over a row that is not mirrored (lines 139-141). Its test is
  \<^verbatim>\<open>i != end\<close>, so it does not return when it starts beyond \<open>e\<close>: \<open>None\<close>.\<close>

partial_function (option) copy_row ::
  "int \<Rightarrow> int \<Rightarrow> int \<Rightarrow> int \<Rightarrow> fill_state \<Rightarrow> fill_state option" where
  "copy_row in_stride0 out_stride0 i e st =
     (if i \<noteq> e then
        copy_row in_stride0 out_stride0 (i + 1) e
          (store_conj st (out_ptr st + i * out_stride0) (in_ptr st + i * in_stride0))
      else Some st)"

declare copy_row.simps [code]

text \<open>The \<^verbatim>\<open>while\<close> loop of lines 126-134.\<close>

partial_function (option) mirrored_loop ::
  "bool list \<Rightarrow> int list \<Rightarrow> int list \<Rightarrow> int list \<Rightarrow> int \<Rightarrow> fill_state \<Rightarrow> fill_state option" where
  "mirrored_loop is_mirrored_dim signal_half_sizes in_strides out_strides numel_remaining st =
     (if numel_remaining > 0 then
        (let e = min (signal_half_sizes ! 0) numel_remaining;
             st1 = store_conj st (out_ptr st) (in_ptr st);
             st2 = mirror_row (signal_half_sizes ! 0) (in_strides ! 0) (out_strides ! 0) 1 e st1
         in mirrored_loop is_mirrored_dim signal_half_sizes in_strides out_strides
              (numel_remaining - e)
              (advance_index is_mirrored_dim signal_half_sizes in_strides out_strides st2))
      else Some st)"

declare mirrored_loop.simps [code]

text \<open>The \<^verbatim>\<open>while\<close> loop of lines 137-145.\<close>

partial_function (option) copy_loop ::
  "bool list \<Rightarrow> int list \<Rightarrow> int list \<Rightarrow> int list \<Rightarrow> int \<Rightarrow> fill_state \<Rightarrow> fill_state option" where
  "copy_loop is_mirrored_dim signal_half_sizes in_strides out_strides numel_remaining st =
     (if numel_remaining > 0 then
        (let i0 = iter_index st ! 0;
             e = min (signal_half_sizes ! 0) (i0 + numel_remaining)
         in case copy_row (in_strides ! 0) (out_strides ! 0) i0 e st of
              None \<Rightarrow> None
            | Some st1 \<Rightarrow>
                copy_loop is_mirrored_dim signal_half_sizes in_strides out_strides
                  (numel_remaining - (e - i0))
                  (advance_index is_mirrored_dim signal_half_sizes in_strides out_strides
                     (st1\<lparr>iter_index := (iter_index st1)[0 := 0]\<rparr>)))
      else Some st)"

declare copy_loop.simps [code]

text \<open>\<^verbatim>\<open>_fft_fill_with_conjugate_symmetry_slice\<close> (lines 54-147), run on the store \<open>m\<close>.
  The result is \<open>None\<close> when the routine does not return.\<close>

definition fft_fill_with_conjugate_symmetry_slice ::
  "Range \<Rightarrow> bool list \<Rightarrow> int list \<Rightarrow> int list \<Rightarrow> int \<Rightarrow> int list \<Rightarrow> int \<Rightarrow>
   (int \<Rightarrow> complex) \<Rightarrow> fill_state option" where
  "fft_fill_with_conjugate_symmetry_slice rng is_mirrored_dim signal_half_sizes
       in_strides in_ptr0 out_strides out_ptr0 m =
     (let ndim = length signal_half_sizes;
          st0 = \<lparr>iter_index = replicate ndim 0, in_ptr = in_ptr0, out_ptr = out_ptr0,
                 mem = m, writes = []\<rparr>;
          st1 = (if range_begin rng > 0 then
                   seek_from is_mirrored_dim signal_half_sizes in_strides out_strides 1
                     (range_begin rng sdiv signal_half_sizes ! 0)
                     (st0\<lparr>iter_index :=
                        (iter_index st0)[0 := range_begin rng smod signal_half_sizes ! 0]\<rparr>)
                 else st0);
          numel_remaining = range_end rng - range_begin rng
      in if is_mirrored_dim ! 0 then
           (if iter_index st1 ! 0 > 0 then
              (let i0 = iter_index st1 ! 0;
                   e = min (signal_half_sizes ! 0) (i0 + numel_remaining);
                   st2 = mirror_row (signal_half_sizes ! 0) (in_strides ! 0) (out_strides ! 0)
                           i0 e st1
               in mirrored_loop is_mirrored_dim signal_half_sizes in_strides out_strides
                    (numel_remaining - (e - i0))
                    (advance_index is_mirrored_dim signal_half_sizes in_strides out_strides
                       (st2\<lparr>iter_index := (iter_index st2)[0 := 0]\<rparr>)))
            else mirrored_loop is_mirrored_dim signal_half_sizes in_strides out_strides
                   numel_remaining st1)
         else copy_loop is_mirrored_dim signal_half_sizes in_strides out_strides
                numel_remaining st1)"

text \<open>The call of \<^verbatim>\<open>at::parallel_for\<close> (lines 173-179): the utility splits \<open>[0, numel)\<close>
  into sub-ranges and calls the slice routine once on each. The utility is not part of this
  file, so the list of sub-ranges it chose is a parameter; the calls run one after the
  other on the same store.\<close>

fun run_slices ::
  "Range list \<Rightarrow> bool list \<Rightarrow> int list \<Rightarrow> int list \<Rightarrow> int \<Rightarrow> int list \<Rightarrow> int \<Rightarrow>
   (int \<Rightarrow> complex) \<Rightarrow> (int \<Rightarrow> complex) option" where
  "run_slices [] mir hs is inp os outp m = Some m"
| "run_slices (r # rs) mir hs is inp os outp m =
     (case fft_fill_with_conjugate_symmetry_slice r mir hs is inp os outp m of
        None \<Rightarrow> None
      | Some st \<Rightarrow> run_slices rs mir hs is inp os outp (mem st))"

text \<open>Modelled from the spec: the element-type tag of a buffer. \<^verbatim>\<open>c10::ScalarType\<close> is
  not under src/; of its enumerators these are listed.\<close>

datatype ScalarType = Byte | Short | Long | Half | Float | Double | ComplexFloat | ComplexDouble

datatype fill_error = InternalAssertFailed | NotImplementedFor ScalarType

text \<open>Modelled from the spec: the byte size of one element of a type (the spec's ``element's
  byte size''); \<^verbatim>\<open>scalarTypeToTypeMeta\<close> is not under src/.\<close>

fun itemsize :: "ScalarType \<Rightarrow> int" where
  "itemsize Byte = 1"
| "itemsize Short = 2"
| "itemsize Long = 8"
| "itemsize Half = 2"
| "itemsize Float = 4"
| "itemsize Double = 8"
| "itemsize ComplexFloat = 8"
| "itemsize ComplexDouble = 16"

text \<open>\<^verbatim>\<open>_fft_fill_with_conjugate_symmetry_cpu_\<close> (lines 149-181): byte strides become
  element strides (an internal assertion fails when one is not a multiple of the element
  size), the mask of mirrored dimensions is built, and the slices run for the two complex
  element types.\<close>

definition fft_fill_with_conjugate_symmetry_cpu ::
  "ScalarType \<Rightarrow> nat list \<Rightarrow> int list \<Rightarrow> int list \<Rightarrow> int \<Rightarrow> int list \<Rightarrow> int \<Rightarrow>
   Range list \<Rightarrow> (int \<Rightarrow> complex) \<Rightarrow> (fill_error + (int \<Rightarrow> complex)) option" where
  "fft_fill_with_conjugate_symmetry_cpu dtype mirror_dims signal_half_sizes
       in_strides_bytes in_data out_strides_bytes out_data chunks m =
     (let element_size = itemsize dtype;
          ndim = length signal_half_sizes
      in if \<not> list_all (\<lambda>i. in_strides_bytes ! i smod element_size = 0 \<and>
                             out_strides_bytes ! i smod element_size = 0) [0..<ndim]
         then Some (Inl InternalAssertFailed)
         else
           (let in_strides = map (\<lambda>i. in_strides_bytes ! i sdiv element_size) [0..<ndim];
                out_strides = map (\<lambda>i. out_strides_bytes ! i sdiv element_size) [0..<ndim];
                is_mirrored_dim =
                  foldl (\<lambda>mask dim. mask[dim := True]) (replicate ndim False) mirror_dims
            in if dtype = ComplexFloat \<or> dtype = ComplexDouble
               then map_option Inr
                      (run_slices chunks is_mirrored_dim signal_half_sizes
                         in_strides in_data out_strides out_data m)
               else Some (Inl (NotImplementedFor dtype))))"

section \<open>The transform configurator \<^verbatim>\<open>_fft_mkl\<close>\<close>

text \<open>
  The tensor library, the native engine and the fill wrapper
  \<^verbatim>\<open>_fft_fill_with_conjugate_symmetry_\<close> are outside this file. A tensor is its sizes,
  strides and element type; every call into one of the three collaborators is recorded as
  an event, in program order, and the engine answers each call with a status (0 is
  \<^verbatim>\<open>DFTI_NO_ERROR\<close>), which \<^verbatim>\<open>MKL_DFTI_CHECK\<close> turns into an error when it is not 0.
  \<open>signal_ndim\<close> is a natural number. Whether \<^verbatim>\<open>MKL_LONG\<close> is narrower than 64 bits, and
  \<^verbatim>\<open>MKL_LONG_MAX\<close>, come from headers that are not under src/ and are parameters.
  Indexing a tensor or \<^verbatim>\<open>output_sizes\<close> beyond its dimensions is not modelled: the
  theorems assume \<open>valid_request\<close> (below).
\<close>

record Tensor =
  sizes :: "int list"
  strides :: "int list"
  scalar_type :: ScalarType

text \<open>Modelled from the spec: the normalization modes ``none, by-N, by-root-N''. The enum
  \<^verbatim>\<open>fft_norm_mode\<close> is declared in \<^verbatim>\<open>SpectralOpsUtils.h\<close>, which is not under src/; the
  parameter \<open>normalization\<close> is taken after the cast of line 288.\<close>

datatype fft_norm_mode = none | by_root_n | by_n

text \<open>The constants and calls of the engine's interface \<^verbatim>\<open>mkl_dfti.h\<close> that the
  configurator uses.\<close>

datatype DFTI_CONFIG_VALUE =
  DFTI_SINGLE | DFTI_DOUBLE | DFTI_COMPLEX | DFTI_REAL | DFTI_NOT_INPLACE | DFTI_COMPLEX_COMPLEX

datatype DFTI_CONFIG_PARAM =
  DFTI_PLACEMENT | DFTI_NUMBER_OF_TRANSFORMS | DFTI_INPUT_DISTANCE | DFTI_OUTPUT_DISTANCE
| DFTI_INPUT_STRIDES | DFTI_OUTPUT_STRIDES | DFTI_CONJUGATE_EVEN_STORAGE
| DFTI_BACKWARD_SCALE | DFTI_FORWARD_SCALE

text \<open>The two expressions of type \<^verbatim>\<open>double\<close> of lines 293 and 295,
  \<^verbatim>\<open>1.0 / std::sqrt(static_cast<double>(n))\<close> and \<^verbatim>\<open>1.0 / static_cast<double>(n)\<close>,
  kept symbolic; \<open>real_of_double_expr\<close> is the real number each of them denotes before
  rounding.\<close>

datatype double_expr = OneOverSqrt int | OneOver int

fun real_of_double_expr :: "double_expr \<Rightarrow> real" where
  "real_of_double_expr (OneOverSqrt n) = 1 / sqrt (real_of_int n)"
| "real_of_double_expr (OneOver n) = 1 / real_of_int n"

datatype dfti_value =
  ConfigValue DFTI_CONFIG_VALUE
| LongValue int
| LongArray "int list"
| DoubleValue double_expr
| FloatValue double_expr

datatype dfti_call =
  DftiCreateDescriptor DFTI_CONFIG_VALUE DFTI_CONFIG_VALUE nat "int list"
| DftiSetValue DFTI_CONFIG_PARAM dfti_value
| DftiCommitDescriptor
| DftiComputeForward Tensor Tensor
| DftiComputeBackward Tensor Tensor

datatype event =
  Contiguous
| Empty "int list"
| Engine dfti_call
| FillWithConjugateSymmetry Tensor "int list"

datatype error =
  SizeExceeded int
| UnsupportedType ScalarType
| EngineError int

text \<open>Modelled from the spec: the ``layout-normalizing copy'' \<^verbatim>\<open>Tensor::contiguous\<close>, the
  freshly allocated output of \<^verbatim>\<open>at::empty\<close> and the ``complex-element view''
  \<^verbatim>\<open>at::view_as_complex\<close>, none of which is under src/, with row-major strides.\<close>

fun contiguous_strides :: "int list \<Rightarrow> int list" where
  "contiguous_strides [] = []"
| "contiguous_strides (s # ss) = prod_list (map (max 1) ss) # contiguous_strides ss"

definition contiguous :: "Tensor \<Rightarrow> Tensor" where
  "contiguous t = t\<lparr>strides := contiguous_strides (sizes t)\<rparr>"

definition empty_tensor :: "int list \<Rightarrow> ScalarType \<Rightarrow> Tensor" where
  "empty_tensor szs dtype = \<lparr>sizes = szs, strides = contiguous_strides szs, scalar_type = dtype\<rparr>"

definition view_as_complex :: "Tensor \<Rightarrow> Tensor" where
  "view_as_complex t =
     \<lparr>sizes = butlast (sizes t), strides = map (\<lambda>s. s div 2) (butlast (strides t)),
      scalar_type = (if scalar_type t = Double then ComplexDouble else ComplexFloat)\<rparr>"

text \<open>Lines 198-201: the loop over the dimensions \<open>0..signal_ndim\<close> that looks for an odd
  stride.\<close>

function stride_loop :: "Tensor \<Rightarrow> nat \<Rightarrow> nat \<Rightarrow> bool \<Rightarrow> bool" where
  "stride_loop input signal_ndim i need_contiguous =
     (if \<not> need_contiguous \<and> i \<le> signal_ndim then
        stride_loop input signal_ndim (Suc i)
          (need_contiguous \<or> strides input ! i smod 2 \<noteq> 0)
      else need_contiguous)"
  by pat_completeness auto
termination
  by (relation "measure (\<lambda>(t, n, i, b). Suc n - i)") auto

declare stride_loop.simps [simp del]

definition complex_needs_contiguous :: "Tensor \<Rightarrow> nat \<Rightarrow> bool" where
  "complex_needs_contiguous input signal_ndim =
     stride_loop input signal_ndim 0 (last (strides input) \<noteq> 1)"

text \<open>Lines 211-235: one iteration of the overflow check, then the loop from
  \<open>signal_ndim\<close> down to 0, and the whole block. \<^verbatim>\<open>>> 1\<close> is \<open>div 2\<close>.\<close>

record preflight =
  need_contiguous :: bool
  inumel :: int
  onumel :: int

definition preflight_step ::
  "int \<Rightarrow> Tensor \<Rightarrow> int list \<Rightarrow> bool \<Rightarrow> nat \<Rightarrow> preflight \<Rightarrow> error + preflight" where
  "preflight_step MKL_LONG_MAX input output_sizes complex_input i p =
     (let isize = sizes input ! i;
          osize = output_sizes ! i;
          istride = (if complex_input then strides input ! i div 2 else strides input ! i);
          ostride = onumel p
      in if \<not> (isize \<le> MKL_LONG_MAX \<and> osize \<le> MKL_LONG_MAX \<and> ostride \<le> MKL_LONG_MAX)
         then Inl (SizeExceeded MKL_LONG_MAX)
         else
           (let p1 = (if \<not> need_contiguous p \<and> istride > MKL_LONG_MAX
                      then p\<lparr>need_contiguous := True\<rparr> else p)
            in if \<not> (\<not> need_contiguous p1 \<or> inumel p1 \<le> MKL_LONG_MAX)
               then Inl (SizeExceeded MKL_LONG_MAX)
               else Inr (p1\<lparr>inumel := inumel p1 * isize, onumel := onumel p1 * osize\<rparr>)))"

fun preflight_loop ::
  "int \<Rightarrow> Tensor \<Rightarrow> int list \<Rightarrow> bool \<Rightarrow> nat \<Rightarrow> preflight \<Rightarrow> error + preflight" where
  "preflight_loop MKL_LONG_MAX input output_sizes complex_input 0 p =
     preflight_step MKL_LONG_MAX input output_sizes complex_input 0 p"
| "preflight_loop MKL_LONG_MAX input output_sizes complex_input (Suc i) p =
     (case preflight_step MKL_LONG_MAX input output_sizes complex_input (Suc i) p of
        Inl e \<Rightarrow> Inl e
      | Inr p' \<Rightarrow> preflight_loop MKL_LONG_MAX input output_sizes complex_input i p')"

definition overflow_preflight ::
  "bool \<Rightarrow> int \<Rightarrow> Tensor \<Rightarrow> int list \<Rightarrow> bool \<Rightarrow> nat \<Rightarrow> error + unit" where
  "overflow_preflight narrow MKL_LONG_MAX input output_sizes complex_input signal_ndim =
     (if narrow then
        (case preflight_loop MKL_LONG_MAX input output_sizes complex_input signal_ndim
                \<lparr>need_contiguous = False, inumel = 1, onumel = 1\<rparr> of
           Inl e \<Rightarrow> Inl e
         | Inr p \<Rightarrow> Inr ())
      else Inr ())"

text \<open>The conversion of a 64-bit value to \<^verbatim>\<open>MKL_LONG\<close> (lines 258, 269-270 and
  277-278). Where \<^verbatim>\<open>MKL_LONG\<close> is the narrower type it has 32 bits (the comment of line
  207), and the conversion keeps the low 32 bits as a signed value.\<close>

definition to_MKL_LONG :: "bool \<Rightarrow> int \<Rightarrow> int" where
  "to_MKL_LONG narrow k = (if narrow then signed_take_bit 31 k else k)"

text \<open>The engine calls of lines 257-308 in program order; each one is wrapped in
  \<^verbatim>\<open>MKL_DFTI_CHECK\<close> in the source, so the first status that is not 0 ends the run.
  The two compute calls carry the tensors whose data pointers they are given.\<close>

fun run_engine ::
  "(event list \<Rightarrow> dfti_call \<Rightarrow> int) \<Rightarrow> event list \<Rightarrow> dfti_call list \<Rightarrow> event list \<times> int option" where
  "run_engine engine tr [] = (tr, None)"
| "run_engine engine tr (c # cs) =
     (let status = engine tr c
      in if status \<noteq> 0 then (tr @ [Engine c], Some status)
         else run_engine engine (tr @ [Engine c]) cs)"

definition dfti_calls ::
  "bool \<Rightarrow> DFTI_CONFIG_VALUE \<Rightarrow> int \<Rightarrow> Tensor \<Rightarrow> Tensor \<Rightarrow> nat \<Rightarrow> bool \<Rightarrow> bool \<Rightarrow> bool \<Rightarrow>
   int list \<Rightarrow> fft_norm_mode \<Rightarrow> dfti_call list" where
  "dfti_calls narrow prec batch input output signal_ndim complex_input complex_output inverse'
       checked_signal_sizes normalization =
     (let signal_type =
            (if \<not> inverse' then (if complex_input then DFTI_COMPLEX else DFTI_REAL)
             else (if complex_output then DFTI_COMPLEX else DFTI_REAL));
          istrides = strides input;
          ostrides = strides output;
          mkl_signal_sizes = map (to_MKL_LONG narrow) checked_signal_sizes;
          idist = to_MKL_LONG narrow
                    (if complex_input then istrides ! 0 div 2 else istrides ! 0);
          odist = to_MKL_LONG narrow
                    (if complex_output then ostrides ! 0 div 2 else ostrides ! 0);
          mkl_istrides = 0 # map (\<lambda>i. to_MKL_LONG narrow
                                        (if complex_input then istrides ! i div 2
                                         else istrides ! i)) [1..<Suc signal_ndim];
          mkl_ostrides = 0 # map (\<lambda>i. to_MKL_LONG narrow
                                        (if complex_output then ostrides ! i div 2
                                         else ostrides ! i)) [1..<Suc signal_ndim];
          signal_numel = prod_list checked_signal_sizes;
          double_scale =
            (if normalization = by_root_n
             then OneOverSqrt signal_numel
             else OneOver signal_numel)
      in [DftiCreateDescriptor prec signal_type signal_ndim mkl_signal_sizes,
          DftiSetValue DFTI_PLACEMENT (ConfigValue DFTI_NOT_INPLACE),
          DftiSetValue DFTI_NUMBER_OF_TRANSFORMS (LongValue batch),
          DftiSetValue DFTI_INPUT_DISTANCE (LongValue idist),
          DftiSetValue DFTI_OUTPUT_DISTANCE (LongValue odist),
          DftiSetValue DFTI_INPUT_STRIDES (LongArray mkl_istrides),
          DftiSetValue DFTI_OUTPUT_STRIDES (LongArray mkl_ostrides)]
         @ (if \<not> complex_input \<or> \<not> complex_output
            then [DftiSetValue DFTI_CONJUGATE_EVEN_STORAGE (ConfigValue DFTI_COMPLEX_COMPLEX)]
            else [])
         @ (if normalization \<noteq> none
            then [DftiSetValue
                    (if inverse' then DFTI_BACKWARD_SCALE else DFTI_FORWARD_SCALE)
                    (if prec = DFTI_DOUBLE then DoubleValue double_scale
                     else FloatValue double_scale)]
            else [])
         @ [DftiCommitDescriptor,
            (if \<not> inverse' then DftiComputeForward input output
             else DftiComputeBackward input output)])"

text \<open>\<^verbatim>\<open>_fft_mkl\<close> (lines 189-317): the events it caused, and the error or the output.\<close>

definition fft_mkl ::
  "bool \<Rightarrow> int \<Rightarrow> (event list \<Rightarrow> dfti_call \<Rightarrow> int) \<Rightarrow>
   Tensor \<Rightarrow> nat \<Rightarrow> bool \<Rightarrow> bool \<Rightarrow> bool \<Rightarrow> int list \<Rightarrow> fft_norm_mode \<Rightarrow> bool \<Rightarrow> int list \<Rightarrow>
   event list \<times> (error + Tensor)" where
  "fft_mkl narrow MKL_LONG_MAX engine self signal_ndim complex_input complex_output inverse'
       checked_signal_sizes normalization onesided output_sizes =
     (let batch = sizes self ! 0;
          copy = (complex_input \<and> complex_needs_contiguous self signal_ndim);
          input = (if copy then contiguous self else self);
          tr0 = (if copy then [Contiguous] else [])
      in case overflow_preflight narrow MKL_LONG_MAX input output_sizes complex_input signal_ndim of
           Inl e \<Rightarrow> (tr0, Inl e)
         | Inr _ \<Rightarrow>
             (let output = empty_tensor output_sizes (scalar_type input);
                  tr1 = tr0 @ [Empty output_sizes]
              in case (if scalar_type input = Float then Some DFTI_SINGLE
                       else if scalar_type input = Double then Some DFTI_DOUBLE
                       else None) of
                   None \<Rightarrow> (tr1, Inl (UnsupportedType (scalar_type input)))
                 | Some prec \<Rightarrow>
                     (case run_engine engine tr1
                             (dfti_calls narrow prec batch input output signal_ndim complex_input
                                complex_output inverse' checked_signal_sizes normalization) of
                        (tr2, Some status) \<Rightarrow> (tr2, Inl (EngineError status))
                      | (tr2, None) \<Rightarrow>
                          (if \<not> complex_input \<and> complex_output \<and> \<not> onesided
                           then (tr2 @ [FillWithConjugateSymmetry (view_as_complex output)
                                          (map int [1..<Suc signal_ndim])],
                                 Inr output)
                           else (tr2, Inr output)))))"

section \<open>Notions used to state the properties\<close>

text \<open>The coordinates of a linear index (dimension 0 varies fastest), the reflection of a
  coordinate in a mirrored dimension, and the offset of a coordinate vector under a list of
  strides.\<close>

fun unravel_index :: "int list \<Rightarrow> int \<Rightarrow> int list" where
  "unravel_index [] k = []"
| "unravel_index (s # ss) k = (k mod s) # unravel_index ss (k div s)"

definition reflect :: "bool \<Rightarrow> int \<Rightarrow> int \<Rightarrow> int" where
  "reflect m s c = (if m \<and> c > 0 then s - c else c)"

fun reflect_coords :: "bool list \<Rightarrow> int list \<Rightarrow> int list \<Rightarrow> int list" where
  "reflect_coords (m # ms) (s # ss) (c # cs) = reflect m s c # reflect_coords ms ss cs"
| "reflect_coords _ _ _ = []"

fun offset :: "int list \<Rightarrow> int list \<Rightarrow> int" where
  "offset (a # as) (c # cs) = a * c + offset as cs"
| "offset _ _ = 0"

text \<open>Replaying a list of assignments on a store, and the assignment expected for the linear
  index \<open>k\<close>.\<close>

definition conj_write :: "(int \<Rightarrow> complex) \<Rightarrow> int \<times> int \<Rightarrow> (int \<Rightarrow> complex)" where
  "conj_write m w = m(fst w := cnj (m (snd w)))"

definition replay :: "(int \<times> int) list \<Rightarrow> (int \<Rightarrow> complex) \<Rightarrow> (int \<Rightarrow> complex)" where
  "replay ws m = foldl conj_write m ws"

definition write_at ::
  "bool list \<Rightarrow> int list \<Rightarrow> int list \<Rightarrow> int \<Rightarrow> int list \<Rightarrow> int \<Rightarrow> int \<Rightarrow> int \<times> int" where
  "write_at mir hs is inp os outp k =
     (outp + offset os (reflect_coords mir hs (unravel_index hs k)),
      inp + offset is (unravel_index hs k))"

definition extends :: "fill_state \<Rightarrow> (int \<times> int) list \<Rightarrow> fill_state \<Rightarrow> bool" where
  "extends st ws st' \<longleftrightarrow> writes st' = writes st @ ws \<and> mem st' = replay ws (mem st)"

text \<open>Arrays of \<open>ndim \<ge> 1\<close> entries and positive extents; \<open>well_formed\<close> also asks every
  mirrored dimension other than dimension 0 to have extent at least 2.\<close>

definition valid_shape :: "bool list \<Rightarrow> int list \<Rightarrow> int list \<Rightarrow> int list \<Rightarrow> bool" where
  "valid_shape mir hs is os \<longleftrightarrow>
     hs \<noteq> [] \<and> length mir = length hs \<and> length is = length hs \<and> length os = length hs \<and>
     (\<forall>s\<in>set hs. 0 < s)"

definition well_formed :: "bool list \<Rightarrow> int list \<Rightarrow> int list \<Rightarrow> int list \<Rightarrow> bool" where
  "well_formed mir hs is os \<longleftrightarrow>
     hs \<noteq> [] \<and> length mir = length hs \<and> length is = length hs \<and> length os = length hs \<and>
     (\<forall>s\<in>set hs. 0 < s) \<and>
     (\<forall>p\<in>set (zip (tl mir) (tl hs)). fst p \<longrightarrow> 2 \<le> snd p)"

fun partition_of :: "int \<Rightarrow> int \<Rightarrow> Range list \<Rightarrow> bool" where
  "partition_of b e [] \<longleftrightarrow> b = e"
| "partition_of b e (r # rs) \<longleftrightarrow>
     range_begin r = b \<and> b \<le> range_end r \<and> partition_of (range_end r) e rs"

text \<open>A request whose tensor has a stride for every size, the batch dimension, the
  transformed dimensions and, for a complex input, the dimension of the real and imaginary
  parts, and whose \<^verbatim>\<open>output_sizes\<close> covers the dimensions \<open>0..signal_ndim\<close>.\<close>

definition valid_request :: "Tensor \<Rightarrow> nat \<Rightarrow> bool \<Rightarrow> int list \<Rightarrow> bool" where
  "valid_request self signal_ndim complex_input output_sizes \<longleftrightarrow>
     length (strides self) = length (sizes self) \<and>
     (if complex_input then signal_ndim + 2 else signal_ndim + 1) \<le> length (sizes self) \<and>
     signal_ndim < length output_sizes"

text \<open>Helpers for concrete runs: a store holding a list of values from a base address on
  (0 elsewhere), reading values back, an engine that accepts every call, and the
  projections of an event list.\<close>

definition buffer :: "int \<Rightarrow> complex list \<Rightarrow> int \<Rightarrow> complex" where
  "buffer base xs a =
     (if base \<le> a \<and> a < base + int (length xs) then xs ! nat (a - base) else 0)"

definition read_back :: "fill_state option \<Rightarrow> int list \<Rightarrow> complex list option" where
  "read_back r addrs = map_option (\<lambda>st. map (mem st) addrs) r"

definition read_mem :: "(int \<Rightarrow> complex) option \<Rightarrow> int list \<Rightarrow> complex list option" where
  "read_mem r addrs = map_option (\<lambda>m. map m addrs) r"

definition read_result ::
  "(fill_error + (int \<Rightarrow> complex)) option \<Rightarrow> int list \<Rightarrow> complex list option" where
  "read_result r addrs = (case r of Some (Inr m) \<Rightarrow> Some (map m addrs) | _ \<Rightarrow> None)"

definition engine_ok :: "event list \<Rightarrow> dfti_call \<Rightarrow> int" where
  "engine_ok tr c = 0"

fun scale_of :: "dfti_value \<Rightarrow> (DFTI_CONFIG_VALUE \<times> real) option" where
  "scale_of (DoubleValue x) = Some (DFTI_DOUBLE, real_of_double_expr x)"
| "scale_of (FloatValue x) = Some (DFTI_SINGLE, real_of_double_expr x)"
| "scale_of _ = None"

fun scale_settings :: "event list \<Rightarrow> (DFTI_CONFIG_PARAM \<times> DFTI_CONFIG_VALUE \<times> real) list" where
  "scale_settings [] = []"
| "scale_settings (Engine (DftiSetValue p v) # tr) =
     (if p = DFTI_BACKWARD_SCALE \<or> p = DFTI_FORWARD_SCALE
      then (case scale_of v of Some (prec, x) \<Rightarrow> [(p, prec, x)] | None \<Rightarrow> []) else [])
     @ scale_settings tr"
| "scale_settings (_ # tr) = scale_settings tr"

fun fill_calls :: "event list \<Rightarrow> (Tensor \<times> int list) list" where
  "fill_calls [] = []"
| "fill_calls (FillWithConjugateSymmetry t dims # tr) = (t, dims) # fill_calls tr"
| "fill_calls (_ # tr) = fill_calls tr"

fun engine_calls :: "event list \<Rightarrow> dfti_call list" where
  "engine_calls [] = []"
| "engine_calls (Engine c # tr) = c # engine_calls tr"
| "engine_calls (_ # tr) = engine_calls tr"

text \<open>The input layout handed to the engine (the values set for \<^verbatim>\<open>DFTI_INPUT_DISTANCE\<close>
  and \<^verbatim>\<open>DFTI_INPUT_STRIDES\<close>), the compute calls of an event list, and the distinct
  addresses a run of the slice has written.\<close>

fun input_settings :: "event list \<Rightarrow> (DFTI_CONFIG_PARAM \<times> dfti_value) list" where
  "input_settings [] = []"
| "input_settings (Engine (DftiSetValue p v) # tr) =
     (if p = DFTI_INPUT_DISTANCE \<or> p = DFTI_INPUT_STRIDES then [(p, v)] else [])
     @ input_settings tr"
| "input_settings (_ # tr) = input_settings tr"

fun compute_calls :: "event list \<Rightarrow> dfti_call list" where
  "compute_calls [] = []"
| "compute_calls (Engine (DftiComputeForward a b) # tr) =
     DftiComputeForward a b # compute_calls tr"
| "compute_calls (Engine (DftiComputeBackward a b) # tr) =
     DftiComputeBackward a b # compute_calls tr"
| "compute_calls (_ # tr) = compute_calls tr"


section \<open>The fill loops\<close>

lemma replay_append: "replay (xs @ ys) m = replay ys (replay xs m)"
  by (simp add: replay_def)

lemma extends_refl: "extends st [] st"
  by (simp add: extends_def replay_def)

lemma extends_trans: "extends a xs b \<Longrightarrow> extends b ys c \<Longrightarrow> extends a (xs @ ys) c"
  by (simp add: extends_def replay_append)

lemma extends_store: "extends st [(d, s)] (store_conj st d s)"
  by (simp add: extends_def store_conj_def replay_def conj_write_def)

lemma store_conj_fields [simp]:
  "iter_index (store_conj st d s) = iter_index st"
  "in_ptr (store_conj st d s) = in_ptr st"
  "out_ptr (store_conj st d s) = out_ptr st"
  by (simp_all add: store_conj_def)

lemma upto_first: "i < e \<Longrightarrow> [i..e - 1] = i # [i + 1..e - 1]" for i e :: int
  by (simp add: upto_rec1)

lemma upto_none: "\<not> i < e \<Longrightarrow> [i..e - 1] = []" for i e :: int
  by simp

lemma mirror_row_spec:
  "extends st (map (\<lambda>j. (out_ptr st + (s - j) * b, in_ptr st + j * a)) [i..e - 1])
     (mirror_row s a b i e st)
   \<and> iter_index (mirror_row s a b i e st) = iter_index st
   \<and> in_ptr (mirror_row s a b i e st) = in_ptr st
   \<and> out_ptr (mirror_row s a b i e st) = out_ptr st"
proof (induction s a b i e st rule: mirror_row.induct)
  case (1 s a b i e st)
  show ?case
  proof (cases "i < e")
    case True
    let ?st1 = "store_conj st (out_ptr st + (s - i) * b) (in_ptr st + i * a)"
    from 1 [OF True] have ih:
      "extends ?st1 (map (\<lambda>j. (out_ptr st + (s - j) * b, in_ptr st + j * a)) [i + 1..e - 1])
         (mirror_row s a b (i + 1) e ?st1)"
      and rest: "iter_index (mirror_row s a b (i + 1) e ?st1) = iter_index st"
        "in_ptr (mirror_row s a b (i + 1) e ?st1) = in_ptr st"
        "out_ptr (mirror_row s a b (i + 1) e ?st1) = out_ptr st"
      by simp_all
    have unf: "mirror_row s a b i e st = mirror_row s a b (i + 1) e ?st1"
      using True by (subst mirror_row.simps) simp
    from extends_trans [OF extends_store ih] rest show ?thesis
      unfolding unf by (simp add: upto_first [OF True])
  next
    case False
    then have "mirror_row s a b i e st = st" by (subst mirror_row.simps) simp
    with False show ?thesis by (simp add: extends_refl)
  qed
qed

lemma copy_row_spec:
  "i \<le> e \<Longrightarrow> \<exists>st'. copy_row a b i e st = Some st'
     \<and> extends st (map (\<lambda>j. (out_ptr st + j * b, in_ptr st + j * a)) [i..e - 1]) st'
     \<and> iter_index st' = iter_index st \<and> in_ptr st' = in_ptr st \<and> out_ptr st' = out_ptr st"
proof (induction "nat (e - i)" arbitrary: i st)
  case 0
  then have "i = e" by simp
  then show ?case by (subst copy_row.simps) (simp add: extends_refl)
next
  case (Suc n)
  then have lt: "i < e" and n: "n = nat (e - (i + 1))" and le: "i + 1 \<le> e" by linarith+
  let ?st1 = "store_conj st (out_ptr st + i * b) (in_ptr st + i * a)"
  from Suc.hyps(1) [OF n le, of ?st1] obtain st' where
    run: "copy_row a b (i + 1) e ?st1 = Some st'"
    and ext: "extends ?st1 (map (\<lambda>j. (out_ptr st + j * b, in_ptr st + j * a)) [i + 1..e - 1]) st'"
    and rest: "iter_index st' = iter_index st" "in_ptr st' = in_ptr st" "out_ptr st' = out_ptr st"
    by auto
  have unf: "copy_row a b i e st = Some st'"
    using lt run by (subst copy_row.simps) simp
  from extends_trans [OF extends_store ext] rest show ?case
    unfolding unf by (simp add: upto_first [OF lt])
qed

lemma unravel_index_step:
  assumes s: "0 < s"
  shows "unravel_index (s # ss) (r + 1) =
     (if r mod s + 1 < s then (r mod s + 1) # unravel_index ss (r div s)
      else 0 # unravel_index ss (r div s + 1))"
proof -
  have bnd: "r mod s < s" "0 \<le> r mod s" using s by simp_all
  have dec: "r = s * (r div s) + r mod s" by simp
  show ?thesis
  proof (cases "r mod s + 1 < s")
    case True
    have eq: "r + 1 = s * (r div s) + (r mod s + 1)" using dec by linarith
    have "(r + 1) div s = r div s"
      by (rule int_div_pos_eq [OF eq]) (use True bnd in linarith)+
    moreover have "(r + 1) mod s = r mod s + 1"
      by (rule int_mod_pos_eq [OF eq]) (use True bnd in linarith)+
    ultimately show ?thesis using True by simp
  next
    case False
    then have e: "r mod s = s - 1" using bnd by linarith
    have eq: "r + 1 = s * (r div s + 1) + 0" using dec e by (simp add: algebra_simps)
    have "(r + 1) div s = r div s + 1"
      by (rule int_div_pos_eq [OF eq]) (use s in linarith)+
    moreover have "(r + 1) mod s = 0"
      by (rule int_mod_pos_eq [OF eq]) (use s in linarith)+
    ultimately show ?thesis using False by simp
  qed
qed

lemma advance_index_from_spec:
  assumes "length pre = i" "length hp = i" "length mp = i" "length ip = i" "length op = i"
    and "length ms = length ss" "length as = length ss" "length bs = length ss"
    and "\<forall>s\<in>set ss. 0 < s"
    and "\<forall>p\<in>set (zip ms ss). fst p \<longrightarrow> 2 \<le> snd p"
    and "iter_index st = pre @ unravel_index ss r"
  shows "iter_index (advance_index_from (mp @ ms) (hp @ ss) (ip @ as) (op @ bs) i st)
           = pre @ unravel_index ss (r + 1)
    \<and> in_ptr (advance_index_from (mp @ ms) (hp @ ss) (ip @ as) (op @ bs) i st)
           = in_ptr st + offset as (unravel_index ss (r + 1)) - offset as (unravel_index ss r)
    \<and> out_ptr (advance_index_from (mp @ ms) (hp @ ss) (ip @ as) (op @ bs) i st)
           = out_ptr st + offset bs (reflect_coords ms ss (unravel_index ss (r + 1)))
               - offset bs (reflect_coords ms ss (unravel_index ss r))
    \<and> mem (advance_index_from (mp @ ms) (hp @ ss) (ip @ as) (op @ bs) i st) = mem st
    \<and> writes (advance_index_from (mp @ ms) (hp @ ss) (ip @ as) (op @ bs) i st) = writes st"
  using assms
proof (induction ss arbitrary: i pre hp mp ip op ms as bs st r)
  case Nil
  then have "advance_index_from (mp @ ms) (hp @ []) (ip @ as) (op @ bs) i st = st"
    using Nil by (subst advance_index_from.simps) simp
  with Nil show ?case by simp
next
  case (Cons s ss)
  from Cons.prems(6-8) obtain m ms' a as' b bs' where
    split: "ms = m # ms'" "as = a # as'" "bs = b # bs'"
    and len': "length ms' = length ss" "length as' = length ss" "length bs' = length ss"
    by (auto simp: length_Suc_conv)
  have s: "0 < s" and ss: "\<forall>s\<in>set ss. 0 < s" using Cons.prems(9) by simp_all
  have mir: "m \<longrightarrow> 2 \<le> s" and mir': "\<forall>p\<in>set (zip ms' ss). fst p \<longrightarrow> 2 \<le> snd p"
    using Cons.prems(10) split by auto
  define c where "c = r mod s"
  define q where "q = r div s"
  have U0: "unravel_index (s # ss) r = c # unravel_index ss q"
    by (simp add: c_def q_def)
  have U1: "unravel_index (s # ss) (r + 1) =
      (if c + 1 < s then (c + 1) # unravel_index ss q else 0 # unravel_index ss (q + 1))"
    unfolding c_def q_def by (rule unravel_index_step [OF s])
  have bnd: "0 \<le> c" "c < s" using s by (simp_all add: c_def)
  have idx: "iter_index st = pre @ c # unravel_index ss q"
    using Cons.prems(11) U0 by simp
  have ilen: "i < length (iter_index st)" using idx Cons.prems(1) by simp
  have nth: "iter_index st ! i = c" "(hp @ s # ss) ! i = s" "(mp @ m # ms') ! i = m"
    "(ip @ a # as') ! i = a" "(op @ b # bs') ! i = b"
    using idx Cons.prems(1-5) by (simp_all add: nth_append)
  have ar: "(s - 1) * b = b * s - b" by (simp add: algebra_simps)
  show ?case
  proof (cases "c + 1 < s")
    case True
    have unf: "advance_index_from (mp @ m # ms') (hp @ s # ss) (ip @ a # as') (op @ b # bs') i st =
      st\<lparr>iter_index := (iter_index st)[i := c + 1],
         in_ptr := in_ptr st + a,
         out_ptr := (if m then (if c + 1 = 1 then out_ptr st + (s - 1) * b
                                else out_ptr st - b)
                     else out_ptr st + b)\<rparr>"
      using True ilen nth by (subst advance_index_from.simps) (simp add: Let_def)
    have upd: "(iter_index st)[i := c + 1] = pre @ (c + 1) # unravel_index ss q"
      using idx Cons.prems(1) by (simp add: list_update_append)
    show ?thesis
      unfolding split unf U1 U0 upd using True bnd
      by (simp add: reflect_def ar distrib_left right_diff_distrib)
  next
    case False
    let ?st2 = "st\<lparr>in_ptr := in_ptr st - a * c,
                   out_ptr := (if m then out_ptr st - b else out_ptr st - b * c),
                   iter_index := (iter_index st)[i := 0]\<rparr>"
    have unf: "advance_index_from (mp @ m # ms') (hp @ s # ss) (ip @ a # as') (op @ b # bs') i st =
      advance_index_from ((mp @ [m]) @ ms') ((hp @ [s]) @ ss) ((ip @ [a]) @ as') ((op @ [b]) @ bs')
        (Suc i) ?st2"
      using False ilen nth by (subst advance_index_from.simps) simp
    have upd: "iter_index ?st2 = (pre @ [0]) @ unravel_index ss q"
      using idx Cons.prems(1) by (simp add: list_update_append)
    have e: "c = s - 1" using False bnd by linarith
    have z: "0 < s - 1" if m using mir that by simp
    note ih = Cons.IH [of "pre @ [0]" "Suc i" "hp @ [s]" "mp @ [m]" "ip @ [a]" "op @ [b]" ms' as' bs'
        ?st2 q, OF _ _ _ _ _ len' ss mir' upd]
    have ih': "iter_index (advance_index_from ((mp @ [m]) @ ms') ((hp @ [s]) @ ss)
           ((ip @ [a]) @ as') ((op @ [b]) @ bs') (Suc i) ?st2) = (pre @ [0]) @ unravel_index ss (q + 1)
     \<and> in_ptr (advance_index_from ((mp @ [m]) @ ms') ((hp @ [s]) @ ss)
           ((ip @ [a]) @ as') ((op @ [b]) @ bs') (Suc i) ?st2) =
         in_ptr ?st2 + offset as' (unravel_index ss (q + 1)) - offset as' (unravel_index ss q)
     \<and> out_ptr (advance_index_from ((mp @ [m]) @ ms') ((hp @ [s]) @ ss)
           ((ip @ [a]) @ as') ((op @ [b]) @ bs') (Suc i) ?st2) =
         out_ptr ?st2 + offset bs' (reflect_coords ms' ss (unravel_index ss (q + 1)))
           - offset bs' (reflect_coords ms' ss (unravel_index ss q))
     \<and> mem (advance_index_from ((mp @ [m]) @ ms') ((hp @ [s]) @ ss)
           ((ip @ [a]) @ as') ((op @ [b]) @ bs') (Suc i) ?st2) = mem ?st2
     \<and> writes (advance_index_from ((mp @ [m]) @ ms') ((hp @ [s]) @ ss)
           ((ip @ [a]) @ as') ((op @ [b]) @ bs') (Suc i) ?st2) = writes ?st2"
      by (rule ih) (use Cons.prems(1-5) in simp_all)
    show ?thesis
      unfolding split unf U1 U0 using ih' False z
      by (simp add: reflect_def e distrib_left right_diff_distrib)
  qed
qed

lemma unravel_index_zero: "unravel_index ss 0 = replicate (length ss) 0"
  by (induction ss) simp_all

lemma offset_zeros: "offset as (replicate n 0) = 0"
proof (induction as arbitrary: n)
  case Nil
  show ?case by simp
next
  case (Cons a as)
  then show ?case by (cases n) simp_all
qed

lemma reflect_coords_zeros:
  "length ms = length ss \<Longrightarrow> reflect_coords ms ss (replicate (length ss) 0) = replicate (length ss) 0"
  by (induction ms ss rule: list_induct2) (simp_all add: reflect_def)

lemma sdiv_nonneg: "0 \<le> l \<Longrightarrow> 0 < s \<Longrightarrow> l sdiv s = l div s" for l s :: int
  by (simp add: signed_divide_int_def sgn_if)

lemma smod_nonneg: "0 \<le> l \<Longrightarrow> 0 < s \<Longrightarrow> l smod s = l mod s" for l s :: int
  by (simp add: signed_modulo_int_def sgn_if)

lemma seek_from_spec:
  assumes "length pre = i" "length hp = i" "length mp = i" "length ip = i" "length op = i"
    and "length ms = length ss" "length as = length ss" "length bs = length ss"
    and "\<forall>s\<in>set ss. 0 < s" and "0 \<le> l"
    and "iter_index st = pre @ replicate (length ss) 0"
  shows "iter_index (seek_from (mp @ ms) (hp @ ss) (ip @ as) (op @ bs) i l st)
           = pre @ unravel_index ss l
    \<and> in_ptr (seek_from (mp @ ms) (hp @ ss) (ip @ as) (op @ bs) i l st)
           = in_ptr st + offset as (unravel_index ss l)
    \<and> out_ptr (seek_from (mp @ ms) (hp @ ss) (ip @ as) (op @ bs) i l st)
           = out_ptr st + offset bs (reflect_coords ms ss (unravel_index ss l))
    \<and> mem (seek_from (mp @ ms) (hp @ ss) (ip @ as) (op @ bs) i l st) = mem st
    \<and> writes (seek_from (mp @ ms) (hp @ ss) (ip @ as) (op @ bs) i l st) = writes st"
  using assms
proof (induction ss arbitrary: i pre hp mp ip op ms as bs st l)
  case Nil
  then have "seek_from (mp @ ms) (hp @ []) (ip @ as) (op @ bs) i l st = st"
    by (subst seek_from.simps) simp
  with Nil show ?case by simp
next
  case (Cons s ss)
  from Cons.prems(6-8) obtain m ms' a as' b bs' where
    split: "ms = m # ms'" "as = a # as'" "bs = b # bs'"
    and len': "length ms' = length ss" "length as' = length ss" "length bs' = length ss"
    by (auto simp: length_Suc_conv)
  have s: "0 < s" and ss: "\<forall>s\<in>set ss. 0 < s" using Cons.prems(9) by simp_all
  have idx: "iter_index st = pre @ 0 # replicate (length ss) 0"
    using Cons.prems(11) by simp
  have nth: "(hp @ s # ss) ! i = s" "(mp @ m # ms') ! i = m"
    "(ip @ a # as') ! i = a" "(op @ b # bs') ! i = b"
    using Cons.prems(1-5) by (simp_all add: nth_append)
  show ?case
  proof (cases "0 < l")
    case False
    then have l0: "l = 0" using Cons.prems(10) by simp
    have unf: "seek_from (mp @ m # ms') (hp @ s # ss) (ip @ a # as') (op @ b # bs') i 0 st = st"
      by (subst seek_from.simps) simp
    show ?thesis
      unfolding split l0 unf using idx len'
      by (simp add: unravel_index_zero offset_zeros reflect_coords_zeros reflect_def)
  next
    case True
    define c where "c = l mod s"
    define q where "q = l div s"
    have sm: "l smod s = c" "l sdiv s = q"
      using True s by (simp_all add: c_def q_def sdiv_nonneg smod_nonneg)
    have bnd: "0 \<le> c" "c < s" and q: "0 \<le> q"
      using s True by (simp_all add: c_def q_def pos_imp_zdiv_nonneg_iff)
    have U: "unravel_index (s # ss) l = c # unravel_index ss q"
      by (simp add: c_def q_def)
    let ?st2 = "st\<lparr>iter_index := (iter_index st)[i := c],
                  in_ptr := in_ptr st + a * c,
                  out_ptr := out_ptr st + b * reflect m s c\<rparr>"
    let ?st2' = "(if c > 0 then
                   st\<lparr>iter_index := (iter_index st)[i := c]\<rparr>
                     \<lparr>in_ptr := in_ptr (st\<lparr>iter_index := (iter_index st)[i := c]\<rparr>) + a * c,
                      out_ptr := (if m then out_ptr (st\<lparr>iter_index := (iter_index st)[i := c]\<rparr>) + b * (s - c)
                                  else out_ptr (st\<lparr>iter_index := (iter_index st)[i := c]\<rparr>) + b * c)\<rparr>
                 else st\<lparr>iter_index := (iter_index st)[i := c]\<rparr>)"
    have st2: "?st2' = ?st2"
      using bnd by (cases "c > 0") (simp_all add: reflect_def)
    have unf: "seek_from (mp @ m # ms') (hp @ s # ss) (ip @ a # as') (op @ b # bs') i l st =
      seek_from ((mp @ [m]) @ ms') ((hp @ [s]) @ ss) ((ip @ [a]) @ as') ((op @ [b]) @ bs')
        (Suc i) q ?st2'"
      using True nth Cons.prems(2) sm by (subst seek_from.simps) (simp add: Let_def)
    have upd: "iter_index ?st2 = (pre @ [c]) @ replicate (length ss) 0"
      using idx Cons.prems(1) by (simp add: list_update_append)
    note ih = Cons.IH [of "pre @ [c]" "Suc i" "hp @ [s]" "mp @ [m]" "ip @ [a]" "op @ [b]" ms' as' bs'
        q ?st2, OF _ _ _ _ _ len' ss q upd]
    have ih': "iter_index (seek_from ((mp @ [m]) @ ms') ((hp @ [s]) @ ss)
           ((ip @ [a]) @ as') ((op @ [b]) @ bs') (Suc i) q ?st2) = (pre @ [c]) @ unravel_index ss q
     \<and> in_ptr (seek_from ((mp @ [m]) @ ms') ((hp @ [s]) @ ss)
           ((ip @ [a]) @ as') ((op @ [b]) @ bs') (Suc i) q ?st2) =
         in_ptr ?st2 + offset as' (unravel_index ss q)
     \<and> out_ptr (seek_from ((mp @ [m]) @ ms') ((hp @ [s]) @ ss)
           ((ip @ [a]) @ as') ((op @ [b]) @ bs') (Suc i) q ?st2) =
         out_ptr ?st2 + offset bs' (reflect_coords ms' ss (unravel_index ss q))
     \<and> mem (seek_from ((mp @ [m]) @ ms') ((hp @ [s]) @ ss)
           ((ip @ [a]) @ as') ((op @ [b]) @ bs') (Suc i) q ?st2) = mem ?st2
     \<and> writes (seek_from ((mp @ [m]) @ ms') ((hp @ [s]) @ ss)
           ((ip @ [a]) @ as') ((op @ [b]) @ bs') (Suc i) q ?st2) = writes ?st2"
      by (rule ih) (use Cons.prems(1-5) in simp_all)
    show ?thesis
      unfolding split unf st2 U using ih' by simp
  qed
qed

lemma write_at_row:
  assumes "0 < s0" "0 \<le> j" "j < s0"
  shows "write_at (m0 # ms) (s0 # ss) (a0 # as) inp (b0 # bs) outp (r * s0 + j) =
     (outp + (b0 * reflect m0 s0 j + offset bs (reflect_coords ms ss (unravel_index ss r))),
      inp + (a0 * j + offset as (unravel_index ss r)))"
proof -
  have eq: "r * s0 + j = s0 * r + j" by simp
  have d: "(r * s0 + j) div s0 = r"
    by (rule int_div_pos_eq [OF eq]) (use assms in linarith)+
  have m: "(r * s0 + j) mod s0 = j"
    by (rule int_mod_pos_eq [OF eq]) (use assms in linarith)+
  show ?thesis
    unfolding write_at_def unravel_index.simps d m by simp
qed

lemma map_upto_shift: "map f [k + a..k + b] = map (\<lambda>j. f (k + j)) [a..b]" for k a b :: int
proof (induction "nat (b - a + 1)" arbitrary: a)
  case 0
  then show ?case by simp
next
  case (Suc n)
  then have le: "a \<le> b" and n: "n = nat (b - (a + 1) + 1)" by linarith+
  have l: "[a..b] = a # [a + 1..b]" using le by (simp add: upto_rec1)
  have k: "[k + a..k + b] = (k + a) # [k + (a + 1)..k + b]"
    using le by (simp add: upto_rec1 add.assoc)
  show ?case unfolding l k using Suc.hyps(1) [OF n] by simp
qed

lemma rows_split:
  assumes "0 \<le> i0" "i0 < s0" "0 < n"
  shows "[r * s0 + i0..r * s0 + i0 + n - 1] =
     [r * s0 + i0..r * s0 + min s0 (i0 + n) - 1] @
     [(r + 1) * s0..(r + 1) * s0 + (n - (min s0 (i0 + n) - i0)) - 1]"
proof (cases "i0 + n \<le> s0")
  case True
  then have e: "min s0 (i0 + n) = i0 + n" by simp
  have emp: "[(r + 1) * s0..(r + 1) * s0 + (n - (i0 + n - i0)) - 1] = []" by simp
  show ?thesis unfolding e emp by (simp add: add.assoc)
next
  case False
  then have e: "min s0 (i0 + n) = s0" by simp
  have j: "(r + 1) * s0 = r * s0 + s0" by (simp add: distrib_right)
  have u: "r * s0 + s0 + (n - (s0 - i0)) - 1 = r * s0 + i0 + n - 1" by simp
  have "[r * s0 + i0..r * s0 + i0 + n - 1] =
      [r * s0 + i0..(r * s0 + s0) - 1] @ [r * s0 + s0..r * s0 + i0 + n - 1]"
    by (rule upto_split1) (use assms False in simp_all)
  then show ?thesis unfolding e j u by simp
qed

lemma advance_index_row:
  assumes len: "length ms = length ss" "length as = length ss" "length bs = length ss"
    and pos: "\<forall>s\<in>set ss. 0 < s"
    and mir: "\<forall>p\<in>set (zip ms ss). fst p \<longrightarrow> 2 \<le> snd p"
    and idx: "iter_index st = 0 # unravel_index ss r"
    and inp: "in_ptr st = inp + offset as (unravel_index ss r)"
    and outp: "out_ptr st = outp + offset bs (reflect_coords ms ss (unravel_index ss r))"
  shows "iter_index (advance_index (m0 # ms) (s0 # ss) (a0 # as) (b0 # bs) st)
           = 0 # unravel_index ss (r + 1)
    \<and> in_ptr (advance_index (m0 # ms) (s0 # ss) (a0 # as) (b0 # bs) st)
           = inp + offset as (unravel_index ss (r + 1))
    \<and> out_ptr (advance_index (m0 # ms) (s0 # ss) (a0 # as) (b0 # bs) st)
           = outp + offset bs (reflect_coords ms ss (unravel_index ss (r + 1)))
    \<and> mem (advance_index (m0 # ms) (s0 # ss) (a0 # as) (b0 # bs) st) = mem st
    \<and> writes (advance_index (m0 # ms) (s0 # ss) (a0 # as) (b0 # bs) st) = writes st"
proof -
  have idx': "iter_index st = [0] @ unravel_index ss r" using idx by simp
  note sp = advance_index_from_spec [of "[0]" 1 "[s0]" "[m0]" "[a0]" "[b0]" ms ss as bs st r,
      OF _ _ _ _ _ len pos mir idx']
  have "iter_index (advance_index_from ([m0] @ ms) ([s0] @ ss) ([a0] @ as) ([b0] @ bs) 1 st)
           = [0] @ unravel_index ss (r + 1)
    \<and> in_ptr (advance_index_from ([m0] @ ms) ([s0] @ ss) ([a0] @ as) ([b0] @ bs) 1 st)
           = in_ptr st + offset as (unravel_index ss (r + 1)) - offset as (unravel_index ss r)
    \<and> out_ptr (advance_index_from ([m0] @ ms) ([s0] @ ss) ([a0] @ as) ([b0] @ bs) 1 st)
           = out_ptr st + offset bs (reflect_coords ms ss (unravel_index ss (r + 1)))
               - offset bs (reflect_coords ms ss (unravel_index ss r))
    \<and> mem (advance_index_from ([m0] @ ms) ([s0] @ ss) ([a0] @ as) ([b0] @ bs) 1 st) = mem st
    \<and> writes (advance_index_from ([m0] @ ms) ([s0] @ ss) ([a0] @ as) ([b0] @ bs) 1 st) = writes st"
    by (rule sp) simp_all
  then show ?thesis
    unfolding advance_index_def using inp outp by simp
qed

lemma mirrored_row_writes:
  assumes s0: "0 < s0" and e: "1 \<le> e" "e \<le> s0"
    and inp: "in_ptr st = inp + offset as (unravel_index ss r)"
    and outp: "out_ptr st = outp + offset bs (reflect_coords ms ss (unravel_index ss r))"
  shows "(out_ptr st, in_ptr st) #
      map (\<lambda>j. (out_ptr st + (s0 - j) * b0, in_ptr st + j * a0)) [1..e - 1] =
    map (write_at (True # ms) (s0 # ss) (a0 # as) inp (b0 # bs) outp) [r * s0..r * s0 + e - 1]"
proof -
  have sh: "map (write_at (True # ms) (s0 # ss) (a0 # as) inp (b0 # bs) outp) [r * s0 + 0..r * s0 + (e - 1)]
      = map (\<lambda>j. write_at (True # ms) (s0 # ss) (a0 # as) inp (b0 # bs) outp (r * s0 + j)) [0..e - 1]"
    by (rule map_upto_shift)
  have l: "[0..e - 1] = 0 # [1..e - 1]" using e by (simp add: upto_rec1)
  have w0: "write_at (True # ms) (s0 # ss) (a0 # as) inp (b0 # bs) outp (r * s0 + 0) =
      (out_ptr st, in_ptr st)"
    unfolding write_at_row [OF s0 order_refl s0] inp outp by (simp add: reflect_def)
  have wj: "write_at (True # ms) (s0 # ss) (a0 # as) inp (b0 # bs) outp (r * s0 + j) =
      (out_ptr st + (s0 - j) * b0, in_ptr st + j * a0)" if "j \<in> set [1..e - 1]" for j
  proof -
    from that e have j: "0 \<le> j" "j < s0" "0 < j" by simp_all
    show ?thesis
      unfolding write_at_row [OF s0 j(1,2)] inp outp using j(3) by (simp add: reflect_def)
  qed
  have ar: "r * s0 + e - 1 = r * s0 + (e - 1)" by simp
  have mc: "map (\<lambda>j. write_at (True # ms) (s0 # ss) (a0 # as) inp (b0 # bs) outp (r * s0 + j)) [1..e - 1]
      = map (\<lambda>j. (out_ptr st + (s0 - j) * b0, in_ptr st + j * a0)) [1..e - 1]"
    by (rule map_cong [OF refl wj])
  show ?thesis unfolding ar using sh l w0 mc by simp
qed

lemma copy_row_writes:
  assumes s0: "0 < s0" and e: "0 \<le> i0" "e \<le> s0"
    and inp: "in_ptr st = inp + offset as (unravel_index ss r)"
    and outp: "out_ptr st = outp + offset bs (reflect_coords ms ss (unravel_index ss r))"
  shows "map (\<lambda>j. (out_ptr st + j * b0, in_ptr st + j * a0)) [i0..e - 1] =
    map (write_at (False # ms) (s0 # ss) (a0 # as) inp (b0 # bs) outp) [r * s0 + i0..r * s0 + e - 1]"
proof -
  have sh: "map (write_at (False # ms) (s0 # ss) (a0 # as) inp (b0 # bs) outp) [r * s0 + i0..r * s0 + (e - 1)]
      = map (\<lambda>j. write_at (False # ms) (s0 # ss) (a0 # as) inp (b0 # bs) outp (r * s0 + j)) [i0..e - 1]"
    by (rule map_upto_shift)
  have wj: "write_at (False # ms) (s0 # ss) (a0 # as) inp (b0 # bs) outp (r * s0 + j) =
      (out_ptr st + j * b0, in_ptr st + j * a0)" if "j \<in> set [i0..e - 1]" for j
  proof -
    from that e have j: "0 \<le> j" "j < s0" by simp_all
    show ?thesis
      unfolding write_at_row [OF s0 j] inp outp by (simp add: reflect_def)
  qed
  have ar: "r * s0 + e - 1 = r * s0 + (e - 1)" by simp
  have mc: "map (\<lambda>j. write_at (False # ms) (s0 # ss) (a0 # as) inp (b0 # bs) outp (r * s0 + j)) [i0..e - 1]
      = map (\<lambda>j. (out_ptr st + j * b0, in_ptr st + j * a0)) [i0..e - 1]"
    by (rule map_cong [OF refl wj])
  show ?thesis unfolding ar using sh mc by simp
qed

lemma mirrored_loop_spec:
  assumes len: "length ms = length ss" "length as = length ss" "length bs = length ss"
    and s0: "0 < s0" and pos: "\<forall>s\<in>set ss. 0 < s"
    and mir: "\<forall>p\<in>set (zip ms ss). fst p \<longrightarrow> 2 \<le> snd p"
    and idx: "iter_index st = 0 # unravel_index ss r"
    and inp: "in_ptr st = inp + offset as (unravel_index ss r)"
    and outp: "out_ptr st = outp + offset bs (reflect_coords ms ss (unravel_index ss r))"
  shows "\<exists>st'. mirrored_loop (True # ms) (s0 # ss) (a0 # as) (b0 # bs) n st = Some st' \<and>
     extends st
       (map (write_at (True # ms) (s0 # ss) (a0 # as) inp (b0 # bs) outp) [r * s0..r * s0 + n - 1])
       st'"
  using idx inp outp
proof (induction "nat n" arbitrary: n st r rule: less_induct)
  case less
  show ?case
  proof (cases "0 < n")
    case False
    then have "mirrored_loop (True # ms) (s0 # ss) (a0 # as) (b0 # bs) n st = Some st"
      by (subst mirrored_loop.simps) simp
    moreover have "[r * s0..r * s0 + n - 1] = []" using False by simp
    ultimately show ?thesis by (simp add: extends_refl)
  next
    case True
    define e where "e = min s0 n"
    have e: "1 \<le> e" "e \<le> s0" using True s0 by (simp_all add: e_def)
    let ?st1 = "store_conj st (out_ptr st) (in_ptr st)"
    let ?st2 = "mirror_row s0 a0 b0 1 e ?st1"
    let ?st3 = "advance_index (True # ms) (s0 # ss) (a0 # as) (b0 # bs) ?st2"
    let ?W = "write_at (True # ms) (s0 # ss) (a0 # as) inp (b0 # bs) outp"
    have unf: "mirrored_loop (True # ms) (s0 # ss) (a0 # as) (b0 # bs) n st =
        mirrored_loop (True # ms) (s0 # ss) (a0 # as) (b0 # bs) (n - e) ?st3"
      using True by (subst mirrored_loop.simps) (simp add: Let_def e_def)
    note mr = mirror_row_spec [of ?st1 s0 b0 a0 1 e]
    have E2: "extends ?st1
        (map (\<lambda>j. (out_ptr st + (s0 - j) * b0, in_ptr st + j * a0)) [1..e - 1]) ?st2"
      and f2: "iter_index ?st2 = iter_index st" "in_ptr ?st2 = in_ptr st" "out_ptr ?st2 = out_ptr st"
      using mr by simp_all
    have E12: "extends st (map ?W [r * s0..r * s0 + e - 1]) ?st2"
      using extends_trans [OF extends_store E2]
      by (simp add: mirrored_row_writes [OF s0 e less.prems(2,3)])
    note adv = advance_index_row [OF len pos mir, of ?st2 r inp outp True s0 a0 b0]
    have a3: "iter_index ?st3 = 0 # unravel_index ss (r + 1)"
      "in_ptr ?st3 = inp + offset as (unravel_index ss (r + 1))"
      "out_ptr ?st3 = outp + offset bs (reflect_coords ms ss (unravel_index ss (r + 1)))"
      "mem ?st3 = mem ?st2" "writes ?st3 = writes ?st2"
      using adv f2 less.prems by simp_all
    have E3: "extends st (map ?W [r * s0..r * s0 + e - 1]) ?st3"
      using E12 a3(4,5) by (simp add: extends_def)
    have dec: "nat (n - e) < nat n" using True e by linarith
    from less.hyps [OF dec a3(1-3)] obtain st' where
      run: "mirrored_loop (True # ms) (s0 # ss) (a0 # as) (b0 # bs) (n - e) ?st3 = Some st'"
      and E4: "extends ?st3 (map ?W [(r + 1) * s0..(r + 1) * s0 + (n - e) - 1]) st'"
      by blast
    have sp: "[r * s0..r * s0 + n - 1] =
        [r * s0..r * s0 + e - 1] @ [(r + 1) * s0..(r + 1) * s0 + (n - e) - 1]"
      using rows_split [of 0 s0 n r] s0 True by (simp add: e_def)
    have "extends st (map ?W [r * s0..r * s0 + n - 1]) st'"
      unfolding sp using extends_trans [OF E3 E4] by simp
    with run unf show ?thesis by simp
  qed
qed

lemma copy_loop_spec:
  assumes len: "length ms = length ss" "length as = length ss" "length bs = length ss"
    and s0: "0 < s0" and pos: "\<forall>s\<in>set ss. 0 < s"
    and mir: "\<forall>p\<in>set (zip ms ss). fst p \<longrightarrow> 2 \<le> snd p"
    and idx: "iter_index st = i0 # unravel_index ss r" and i0: "0 \<le> i0" "i0 < s0"
    and inp: "in_ptr st = inp + offset as (unravel_index ss r)"
    and outp: "out_ptr st = outp + offset bs (reflect_coords ms ss (unravel_index ss r))"
  shows "\<exists>st'. copy_loop (False # ms) (s0 # ss) (a0 # as) (b0 # bs) n st = Some st' \<and>
     extends st
       (map (write_at (False # ms) (s0 # ss) (a0 # as) inp (b0 # bs) outp)
          [r * s0 + i0..r * s0 + i0 + n - 1])
       st'"
  using idx i0 inp outp
proof (induction "nat n" arbitrary: n st r i0 rule: less_induct)
  case less
  show ?case
  proof (cases "0 < n")
    case False
    then have "copy_loop (False # ms) (s0 # ss) (a0 # as) (b0 # bs) n st = Some st"
      by (subst copy_loop.simps) simp
    moreover have "[r * s0 + i0..r * s0 + i0 + n - 1] = []" using False by simp
    ultimately show ?thesis by (simp add: extends_refl)
  next
    case True
    define e where "e = min s0 (i0 + n)"
    have e: "i0 < e" "e \<le> s0" using True less.prems(2,3) by (simp_all add: e_def)
    let ?W = "write_at (False # ms) (s0 # ss) (a0 # as) inp (b0 # bs) outp"
    from copy_row_spec [of i0 e a0 b0 st] e obtain st1 where
      row: "copy_row a0 b0 i0 e st = Some st1"
      and E1: "extends st (map (\<lambda>j. (out_ptr st + j * b0, in_ptr st + j * a0)) [i0..e - 1]) st1"
      and f1: "iter_index st1 = iter_index st" "in_ptr st1 = in_ptr st" "out_ptr st1 = out_ptr st"
      by force
    let ?st2 = "st1\<lparr>iter_index := (iter_index st1)[0 := 0]\<rparr>"
    let ?st3 = "advance_index (False # ms) (s0 # ss) (a0 # as) (b0 # bs) ?st2"
    have unf: "copy_loop (False # ms) (s0 # ss) (a0 # as) (b0 # bs) n st =
        copy_loop (False # ms) (s0 # ss) (a0 # as) (b0 # bs) (n - (e - i0)) ?st3"
      using True row less.prems(1) by (subst copy_loop.simps) (simp add: Let_def e_def)
    have E12: "extends st (map ?W [r * s0 + i0..r * s0 + e - 1]) st1"
      using E1 by (simp add: copy_row_writes [OF s0 less.prems(2) e(2) less.prems(4,5)])
    have f2: "iter_index ?st2 = 0 # unravel_index ss r"
      "in_ptr ?st2 = inp + offset as (unravel_index ss r)"
      "out_ptr ?st2 = outp + offset bs (reflect_coords ms ss (unravel_index ss r))"
      using f1 less.prems by simp_all
    note adv = advance_index_row [OF len pos mir f2, of False s0 a0 b0]
    have a3: "iter_index ?st3 = 0 # unravel_index ss (r + 1)"
      "in_ptr ?st3 = inp + offset as (unravel_index ss (r + 1))"
      "out_ptr ?st3 = outp + offset bs (reflect_coords ms ss (unravel_index ss (r + 1)))"
      "mem ?st3 = mem st1" "writes ?st3 = writes st1"
      using adv by simp_all
    have E3: "extends st (map ?W [r * s0 + i0..r * s0 + e - 1]) ?st3"
      using E12 a3(4,5) by (simp add: extends_def)
    have dec: "nat (n - (e - i0)) < nat n" using True e by linarith
    from less.hyps [OF dec a3(1) order_refl s0 a3(2,3)] obtain st' where
      run: "copy_loop (False # ms) (s0 # ss) (a0 # as) (b0 # bs) (n - (e - i0)) ?st3 = Some st'"
      and E4: "extends ?st3 (map ?W [(r + 1) * s0 + 0..(r + 1) * s0 + 0 + (n - (e - i0)) - 1]) st'"
      by blast
    have sp: "[r * s0 + i0..r * s0 + i0 + n - 1] =
        [r * s0 + i0..r * s0 + e - 1] @ [(r + 1) * s0..(r + 1) * s0 + (n - (e - i0)) - 1]"
      using rows_split [OF less.prems(2,3) True, of r] by (simp add: e_def)
    have "extends st (map ?W [r * s0 + i0..r * s0 + i0 + n - 1]) st'"
      unfolding sp using extends_trans [OF E3 E4] by simp
    with run unf show ?thesis by simp
  qed
qed

lemma mirrored_tail_writes:
  assumes s0: "0 < s0" and e: "0 < i0" "e \<le> s0"
    and inp: "in_ptr st = inp + offset as (unravel_index ss r)"
    and outp: "out_ptr st = outp + offset bs (reflect_coords ms ss (unravel_index ss r))"
  shows "map (\<lambda>j. (out_ptr st + (s0 - j) * b0, in_ptr st + j * a0)) [i0..e - 1] =
    map (write_at (True # ms) (s0 # ss) (a0 # as) inp (b0 # bs) outp) [r * s0 + i0..r * s0 + e - 1]"
proof -
  have sh: "map (write_at (True # ms) (s0 # ss) (a0 # as) inp (b0 # bs) outp) [r * s0 + i0..r * s0 + (e - 1)]
      = map (\<lambda>j. write_at (True # ms) (s0 # ss) (a0 # as) inp (b0 # bs) outp (r * s0 + j)) [i0..e - 1]"
    by (rule map_upto_shift)
  have wj: "write_at (True # ms) (s0 # ss) (a0 # as) inp (b0 # bs) outp (r * s0 + j) =
      (out_ptr st + (s0 - j) * b0, in_ptr st + j * a0)" if "j \<in> set [i0..e - 1]" for j
  proof -
    from that e have j: "0 \<le> j" "j < s0" "0 < j" by simp_all
    show ?thesis
      unfolding write_at_row [OF s0 j(1,2)] inp outp using j(3) by (simp add: reflect_def)
  qed
  have ar: "r * s0 + e - 1 = r * s0 + (e - 1)" by simp
  have mc: "map (\<lambda>j. write_at (True # ms) (s0 # ss) (a0 # as) inp (b0 # bs) outp (r * s0 + j)) [i0..e - 1]
      = map (\<lambda>j. (out_ptr st + (s0 - j) * b0, in_ptr st + j * a0)) [i0..e - 1]"
    by (rule map_cong [OF refl wj])
  show ?thesis unfolding ar using sh mc by simp
qed

lemma slice_spec:
  assumes wf: "well_formed mir hs is os" and b: "0 \<le> b"
  shows "\<exists>st'. fft_fill_with_conjugate_symmetry_slice \<lparr>range_begin = b, range_end = e\<rparr>
             mir hs is inp os outp m = Some st'
     \<and> writes st' = map (write_at mir hs is inp os outp) [b..e - 1]
     \<and> mem st' = replay (writes st') m"
proof -
  from wf obtain m0 ms s0 ss a0 as b0 bs where
    sp: "mir = m0 # ms" "hs = s0 # ss" "is = a0 # as" "os = b0 # bs"
    and len: "length ms = length ss" "length as = length ss" "length bs = length ss"
    and s0: "0 < s0" and pos: "\<forall>s\<in>set ss. 0 < s"
    and mok: "\<forall>p\<in>set (zip ms ss). fst p \<longrightarrow> 2 \<le> snd p"
    unfolding well_formed_def
    by (cases mir; cases hs; cases "is"; cases os) auto
  let ?W = "write_at (m0 # ms) (s0 # ss) (a0 # as) inp (b0 # bs) outp"
  let ?st0 = "\<lparr>iter_index = replicate (length (s0 # ss)) 0, in_ptr = inp, out_ptr = outp,
                mem = m, writes = []\<rparr>"
  define c where "c = b mod s0"
  define q where "q = b div s0"
  define st1 where "st1 = (if 0 < b then
       seek_from (m0 # ms) (s0 # ss) (a0 # as) (b0 # bs) 1 (b sdiv s0)
         (?st0\<lparr>iter_index := (iter_index ?st0)[0 := b smod s0]\<rparr>)
     else ?st0)"
  have def': "fft_fill_with_conjugate_symmetry_slice \<lparr>range_begin = b, range_end = e\<rparr>
             (m0 # ms) (s0 # ss) (a0 # as) inp (b0 # bs) outp m =
      (if m0 then
         (if iter_index st1 ! 0 > 0 then
            mirrored_loop (m0 # ms) (s0 # ss) (a0 # as) (b0 # bs)
              (e - b - (min s0 (iter_index st1 ! 0 + (e - b)) - iter_index st1 ! 0))
              (advance_index (m0 # ms) (s0 # ss) (a0 # as) (b0 # bs)
                 ((mirror_row s0 a0 b0 (iter_index st1 ! 0)
                     (min s0 (iter_index st1 ! 0 + (e - b))) st1)
                  \<lparr>iter_index := (iter_index (mirror_row s0 a0 b0 (iter_index st1 ! 0)
                     (min s0 (iter_index st1 ! 0 + (e - b))) st1))[0 := 0]\<rparr>))
          else mirrored_loop (m0 # ms) (s0 # ss) (a0 # as) (b0 # bs) (e - b) st1)
       else copy_loop (m0 # ms) (s0 # ss) (a0 # as) (b0 # bs) (e - b) st1)"
    by (simp only: fft_fill_with_conjugate_symmetry_slice_def st1_def Let_def
        Range.select_convs nth_Cons_0)
  have bq: "b = q * s0 + c" by (simp add: c_def q_def)
  have cq: "0 \<le> c" "c < s0" "0 \<le> q"
    using s0 b by (simp_all add: c_def q_def pos_imp_zdiv_nonneg_iff)
  have st1: "iter_index st1 = c # unravel_index ss q
    \<and> in_ptr st1 = inp + offset as (unravel_index ss q)
    \<and> out_ptr st1 = outp + offset bs (reflect_coords ms ss (unravel_index ss q))
    \<and> mem st1 = m \<and> writes st1 = []"
  proof (cases "0 < b")
    case False
    then have "b = 0" using b by simp
    then have "c = 0" "q = 0" by (simp_all add: c_def q_def)
    then show ?thesis
      using False len
      by (simp add: st1_def unravel_index_zero offset_zeros reflect_coords_zeros)
  next
    case True
    let ?s = "?st0\<lparr>iter_index := (iter_index ?st0)[0 := c]\<rparr>"
    have sm: "b smod s0 = c" "b sdiv s0 = q"
      using b s0 by (simp_all add: c_def q_def sdiv_nonneg smod_nonneg)
    have idx: "iter_index ?s = [c] @ replicate (length ss) 0" by simp
    note sk = seek_from_spec [of "[c]" 1 "[s0]" "[m0]" "[a0]" "[b0]" ms ss as bs q ?s,
        OF _ _ _ _ _ len pos cq(3) idx]
    have "iter_index (seek_from ([m0] @ ms) ([s0] @ ss) ([a0] @ as) ([b0] @ bs) 1 q ?s)
           = [c] @ unravel_index ss q
      \<and> in_ptr (seek_from ([m0] @ ms) ([s0] @ ss) ([a0] @ as) ([b0] @ bs) 1 q ?s)
           = in_ptr ?s + offset as (unravel_index ss q)
      \<and> out_ptr (seek_from ([m0] @ ms) ([s0] @ ss) ([a0] @ as) ([b0] @ bs) 1 q ?s)
           = out_ptr ?s + offset bs (reflect_coords ms ss (unravel_index ss q))
      \<and> mem (seek_from ([m0] @ ms) ([s0] @ ss) ([a0] @ as) ([b0] @ bs) 1 q ?s) = mem ?s
      \<and> writes (seek_from ([m0] @ ms) ([s0] @ ss) ([a0] @ as) ([b0] @ bs) 1 q ?s) = writes ?s"
      by (rule sk) simp_all
    then show ?thesis using True by (simp add: st1_def sm)
  qed
  then have i1: "iter_index st1 = c # unravel_index ss q"
    and p1: "in_ptr st1 = inp + offset as (unravel_index ss q)"
    and o1: "out_ptr st1 = outp + offset bs (reflect_coords ms ss (unravel_index ss q))"
    and m1: "mem st1 = m" and w1: "writes st1 = []"
    by simp_all
  have main: "\<exists>st'. fft_fill_with_conjugate_symmetry_slice \<lparr>range_begin = b, range_end = e\<rparr>
             (m0 # ms) (s0 # ss) (a0 # as) inp (b0 # bs) outp m = Some st'
     \<and> extends st1 (map ?W [b..e - 1]) st'"
  proof (cases m0)
    case False
    have unf: "fft_fill_with_conjugate_symmetry_slice \<lparr>range_begin = b, range_end = e\<rparr>
             (m0 # ms) (s0 # ss) (a0 # as) inp (b0 # bs) outp m =
         copy_loop (False # ms) (s0 # ss) (a0 # as) (b0 # bs) (e - b) st1"
      unfolding def' using False by simp
    from copy_loop_spec [OF len s0 pos mok i1 cq(1,2) p1 o1, of a0 b0 "e - b"]
    obtain st' where
      "copy_loop (False # ms) (s0 # ss) (a0 # as) (b0 # bs) (e - b) st1 = Some st'"
      "extends st1 (map (write_at (False # ms) (s0 # ss) (a0 # as) inp (b0 # bs) outp)
          [q * s0 + c..q * s0 + c + (e - b) - 1]) st'"
      by blast
    moreover have "q * s0 + c + (e - b) - 1 = e - 1" using bq by simp
    ultimately show ?thesis unfolding unf using False bq by auto
  next
    case True
    show ?thesis
    proof (cases "0 < c")
      case False
      then have c0: "c = 0" using cq by simp
      have unf: "fft_fill_with_conjugate_symmetry_slice \<lparr>range_begin = b, range_end = e\<rparr>
             (m0 # ms) (s0 # ss) (a0 # as) inp (b0 # bs) outp m =
         mirrored_loop (True # ms) (s0 # ss) (a0 # as) (b0 # bs) (e - b) st1"
        unfolding def' using True i1 c0 by simp
      from mirrored_loop_spec [OF len s0 pos mok i1 [unfolded c0] p1 o1, of a0 b0 "e - b"]
      obtain st' where
        "mirrored_loop (True # ms) (s0 # ss) (a0 # as) (b0 # bs) (e - b) st1 = Some st'"
        "extends st1 (map (write_at (True # ms) (s0 # ss) (a0 # as) inp (b0 # bs) outp)
          [q * s0..q * s0 + (e - b) - 1]) st'"
        by blast
      moreover have "q * s0 + (e - b) - 1 = e - 1" "q * s0 = b" using bq c0 by simp_all
      ultimately show ?thesis unfolding unf using True by auto
    next
      case cpos: True
      have m0T: "m0 = True" using True by simp
      define e' where "e' = min s0 (c + (e - b))"
      let ?WT = "write_at (True # ms) (s0 # ss) (a0 # as) inp (b0 # bs) outp"
      let ?st2 = "mirror_row s0 a0 b0 c e' st1"
      let ?st2' = "?st2\<lparr>iter_index := (iter_index ?st2)[0 := 0]\<rparr>"
      let ?st3 = "advance_index (True # ms) (s0 # ss) (a0 # as) (b0 # bs) ?st2'"
      let ?n = "e - b - (e' - c)"
      have unf: "fft_fill_with_conjugate_symmetry_slice \<lparr>range_begin = b, range_end = e\<rparr>
             (m0 # ms) (s0 # ss) (a0 # as) inp (b0 # bs) outp m =
         mirrored_loop (True # ms) (s0 # ss) (a0 # as) (b0 # bs) ?n ?st3"
        unfolding def' using True i1 cpos by (simp add: e'_def)
      note mr = mirror_row_spec [of st1 s0 b0 a0 c e']
      have E2: "extends st1 (map (\<lambda>j. (out_ptr st1 + (s0 - j) * b0, in_ptr st1 + j * a0)) [c..e' - 1]) ?st2"
        and f2: "iter_index ?st2 = iter_index st1" "in_ptr ?st2 = in_ptr st1" "out_ptr ?st2 = out_ptr st1"
        using mr by simp_all
      have e's: "e' \<le> s0" by (simp add: e'_def)
      have E12: "extends st1 (map ?WT [q * s0 + c..q * s0 + e' - 1]) ?st2"
        using E2 by (simp add: mirrored_tail_writes [OF s0 cpos e's p1 o1])
      have f2': "iter_index ?st2' = 0 # unravel_index ss q"
        "in_ptr ?st2' = inp + offset as (unravel_index ss q)"
        "out_ptr ?st2' = outp + offset bs (reflect_coords ms ss (unravel_index ss q))"
        using f2 i1 p1 o1 by simp_all
      note adv = advance_index_row [OF len pos mok f2', of True s0 a0 b0]
      have a3: "iter_index ?st3 = 0 # unravel_index ss (q + 1)"
        "in_ptr ?st3 = inp + offset as (unravel_index ss (q + 1))"
        "out_ptr ?st3 = outp + offset bs (reflect_coords ms ss (unravel_index ss (q + 1)))"
        "mem ?st3 = mem ?st2" "writes ?st3 = writes ?st2"
        using adv by simp_all
      have E3: "extends st1 (map ?WT [q * s0 + c..q * s0 + e' - 1]) ?st3"
        using E12 a3(4,5) by (simp add: extends_def)
      from mirrored_loop_spec [OF len s0 pos mok a3(1-3), of a0 b0 ?n]
      obtain st' where
        run: "mirrored_loop (True # ms) (s0 # ss) (a0 # as) (b0 # bs) ?n ?st3 = Some st'"
        and E4: "extends ?st3 (map ?WT [(q + 1) * s0..(q + 1) * s0 + ?n - 1]) st'"
        by blast
      have split: "[b..e - 1] = [q * s0 + c..q * s0 + e' - 1] @ [(q + 1) * s0..(q + 1) * s0 + ?n - 1]"
      proof (cases "0 < e - b")
        case True
        have "b + (e - b) - 1 = e - 1" by simp
        with rows_split [OF cq(1,2) True, of q] show ?thesis
          unfolding e'_def bq [symmetric] by simp
      next
        case False
        then have "e' = c + (e - b)" using cq by (simp add: e'_def)
        then show ?thesis using False bq by simp
      qed
      have "extends st1 (map ?WT [b..e - 1]) st'"
        unfolding split using extends_trans [OF E3 E4] by simp
      with run unf show ?thesis unfolding m0T by simp
    qed
  qed
  then show ?thesis
    unfolding sp using m1 w1 by (auto simp: extends_def)
qed

lemma advance_index_from_keeps:
  "1 \<le> i \<Longrightarrow>
     iter_index (advance_index_from mir hs is os i st) ! 0 = iter_index st ! 0
   \<and> length (iter_index (advance_index_from mir hs is os i st)) = length (iter_index st)
   \<and> mem (advance_index_from mir hs is os i st) = mem st
   \<and> writes (advance_index_from mir hs is os i st) = writes st"
proof (induction mir hs "is" os i st rule: advance_index_from.induct)
  case (1 mir hs "is" os i st)
  show ?case
  proof (cases "i < length (iter_index st)")
    case False
    then have "advance_index_from mir hs is os i st = st"
      by (subst advance_index_from.simps) simp
    then show ?thesis by simp
  next
    case True
    show ?thesis
    proof (cases "iter_index st ! i + 1 < hs ! i")
      case step: True
      show ?thesis
        using True step 1(2) by (subst (1 2 3 4) advance_index_from.simps) (simp add: Let_def)
    next
      case roll: False
      let ?st2 = "st\<lparr>in_ptr := in_ptr st - is ! i * iter_index st ! i,
                 out_ptr := (if mir ! i then out_ptr st - os ! i
                             else out_ptr st - os ! i * iter_index st ! i),
                 iter_index := (iter_index st)[i := 0]\<rparr>"
      have unf: "advance_index_from mir hs is os i st = advance_index_from mir hs is os (Suc i) ?st2"
        using True roll by (subst advance_index_from.simps) simp
      from 1(1) [OF True roll] 1(2) show ?thesis
        unfolding unf by simp
    qed
  qed
qed

lemma seek_from_keeps:
  "1 \<le> i \<Longrightarrow>
     iter_index (seek_from mir hs is os i l st) ! 0 = iter_index st ! 0
   \<and> length (iter_index (seek_from mir hs is os i l st)) = length (iter_index st)
   \<and> mem (seek_from mir hs is os i l st) = mem st
   \<and> writes (seek_from mir hs is os i l st) = writes st"
proof (induction mir hs "is" os i l st rule: seek_from.induct)
  case (1 mir hs "is" os i l st)
  show ?case
  proof (cases "i < length hs \<and> 0 < l")
    case False
    then have "seek_from mir hs is os i l st = st"
      by (subst seek_from.simps) auto
    then show ?thesis by simp
  next
    case True
    define v where "v = l smod hs ! i"
    define st1 where "st1 = st\<lparr>iter_index := (iter_index st)[i := v]\<rparr>"
    define st2 where "st2 = (if v > 0 then
                      st1\<lparr>in_ptr := in_ptr st1 + is ! i * v,
                          out_ptr :=
                            (if mir ! i
                             then out_ptr st1 + os ! i * (hs ! i - v)
                             else out_ptr st1 + os ! i * v)\<rparr>
                    else st1)"
    have unf: "seek_from mir hs is os i l st = seek_from mir hs is os (Suc i) (l sdiv hs ! i) st2"
      using True by (subst seek_from.simps) (simp add: Let_def v_def st1_def st2_def)
    have k: "iter_index st2 ! 0 = iter_index st ! 0" "length (iter_index st2) = length (iter_index st)"
      "mem st2 = mem st" "writes st2 = writes st"
      using 1(2) by (simp_all add: st2_def st1_def)
    from 1(1) [OF True v_def st1_def st2_def] show ?thesis
      unfolding unf using k by simp
  qed
qed

lemma mirrored_loop_count:
  assumes s0: "0 < hs ! 0"
  shows "\<exists>st' ws. mirrored_loop mir hs is os n st = Some st' \<and> extends st ws st' \<and> length ws = nat n"
proof (induction "nat n" arbitrary: n st rule: less_induct)
  case less
  show ?case
  proof (cases "0 < n")
    case False
    then have "mirrored_loop mir hs is os n st = Some st"
      by (subst mirrored_loop.simps) simp
    with False extends_refl [of st] show ?thesis by force
  next
    case True
    define e where "e = min (hs ! 0) n"
    have e: "1 \<le> e" "e \<le> n" using True s0 by (simp_all add: e_def)
    let ?st1 = "store_conj st (out_ptr st) (in_ptr st)"
    let ?st2 = "mirror_row (hs ! 0) (is ! 0) (os ! 0) 1 e ?st1"
    let ?st3 = "advance_index mir hs is os ?st2"
    let ?ws = "map (\<lambda>j. (out_ptr ?st1 + (hs ! 0 - j) * os ! 0, in_ptr ?st1 + j * is ! 0)) [1..e - 1]"
    have unf: "mirrored_loop mir hs is os n st = mirrored_loop mir hs is os (n - e) ?st3"
      using True by (subst mirrored_loop.simps) (simp add: Let_def e_def)
    have E2: "extends ?st1 ?ws ?st2"
      using mirror_row_spec [of ?st1 "hs ! 0" "os ! 0" "is ! 0" 1 e] by simp
    have E3: "extends ?st2 [] ?st3"
      using advance_index_from_keeps [of 1 mir hs "is" os ?st2]
      by (simp add: advance_index_def extends_def replay_def)
    have E: "extends st ([(out_ptr st, in_ptr st)] @ ?ws @ []) ?st3"
      by (rule extends_trans [OF extends_store extends_trans [OF E2 E3]])
    have dec: "nat (n - e) < nat n" using True e by linarith
    from less.hyps [OF dec, of ?st3] obtain st' ws where
      run: "mirrored_loop mir hs is os (n - e) ?st3 = Some st'"
      and E4: "extends ?st3 ws st'" and l: "length ws = nat (n - e)"
      by blast
    have len: "length (([(out_ptr st, in_ptr st)] @ ?ws @ []) @ ws) = nat n"
      using l e by simp
    show ?thesis
      unfolding unf run
      by (intro exI conjI, rule refl, rule extends_trans [OF E E4], rule len)
  qed
qed

lemma copy_loop_count:
  assumes s0: "0 < hs ! 0"
  shows "0 \<le> iter_index st ! 0 \<Longrightarrow> iter_index st ! 0 < hs ! 0 \<Longrightarrow> iter_index st \<noteq> [] \<Longrightarrow>
    \<exists>st' ws. copy_loop mir hs is os n st = Some st' \<and> extends st ws st' \<and> length ws = nat n"
proof (induction "nat n" arbitrary: n st rule: less_induct)
  case less
  show ?case
  proof (cases "0 < n")
    case False
    then have "copy_loop mir hs is os n st = Some st"
      by (subst copy_loop.simps) simp
    with False extends_refl [of st] show ?thesis by force
  next
    case True
    define i0 where "i0 = iter_index st ! 0"
    define e where "e = min (hs ! 0) (i0 + n)"
    have e: "i0 < e" "e \<le> i0 + n" using True less.prems by (simp_all add: e_def i0_def)
    let ?ws = "map (\<lambda>j. (out_ptr st + j * os ! 0, in_ptr st + j * is ! 0)) [i0..e - 1]"
    from copy_row_spec [of i0 e "is ! 0" "os ! 0" st] e obtain st1 where
      row: "copy_row (is ! 0) (os ! 0) i0 e st = Some st1"
      and E1: "extends st ?ws st1"
      and f1: "iter_index st1 = iter_index st"
      by force
    let ?st2 = "st1\<lparr>iter_index := (iter_index st1)[0 := 0]\<rparr>"
    let ?st3 = "advance_index mir hs is os ?st2"
    have unf: "copy_loop mir hs is os n st = copy_loop mir hs is os (n - (e - i0)) ?st3"
      using True row by (subst copy_loop.simps) (simp add: Let_def e_def i0_def)
    note k = advance_index_from_keeps [of 1 mir hs "is" os ?st2]
    have E3: "extends st1 [] ?st3"
      using k by (simp add: advance_index_def extends_def replay_def)
    have i3: "iter_index ?st3 ! 0 = 0" "iter_index ?st3 \<noteq> []"
      using k f1 less.prems(3) by (auto simp: advance_index_def)
    have dec: "nat (n - (e - i0)) < nat n" using True e by linarith
    from less.hyps [OF dec, of ?st3] i3 s0 obtain st' ws where
      run: "copy_loop mir hs is os (n - (e - i0)) ?st3 = Some st'"
      and E4: "extends ?st3 ws st'" and l: "length ws = nat (n - (e - i0))"
      by auto
    have len: "length ((?ws @ []) @ ws) = nat n"
      using l e by simp
    show ?thesis
      unfolding unf run
      by (intro exI conjI, rule refl, rule extends_trans [OF extends_trans [OF E1 E3] E4], rule len)
  qed
qed

lemma slice_count:
  assumes vs: "valid_shape mir hs is os"
  shows "\<exists>st'. fft_fill_with_conjugate_symmetry_slice \<lparr>range_begin = b, range_end = e\<rparr>
             mir hs is inp os outp m = Some st'
     \<and> length (writes st') = nat (e - b) \<and> mem st' = replay (writes st') m"
proof -
  from vs have ne: "hs \<noteq> []" and s0: "0 < hs ! 0"
    by (auto simp: valid_shape_def neq_Nil_conv)
  let ?st0 = "\<lparr>iter_index = replicate (length hs) 0, in_ptr = inp, out_ptr = outp,
                mem = m, writes = []\<rparr>"
  define st1 where "st1 = (if 0 < b then
       seek_from mir hs is os 1 (b sdiv hs ! 0)
         (?st0\<lparr>iter_index := (iter_index ?st0)[0 := b smod hs ! 0]\<rparr>)
     else ?st0)"
  define i0 where "i0 = iter_index st1 ! 0"
  have def': "fft_fill_with_conjugate_symmetry_slice \<lparr>range_begin = b, range_end = e\<rparr>
             mir hs is inp os outp m =
      (if mir ! 0 then
         (if iter_index st1 ! 0 > 0 then
            mirrored_loop mir hs is os
              (e - b - (min (hs ! 0) (iter_index st1 ! 0 + (e - b)) - iter_index st1 ! 0))
              (advance_index mir hs is os
                 ((mirror_row (hs ! 0) (is ! 0) (os ! 0) (iter_index st1 ! 0)
                     (min (hs ! 0) (iter_index st1 ! 0 + (e - b))) st1)
                  \<lparr>iter_index := (iter_index (mirror_row (hs ! 0) (is ! 0) (os ! 0) (iter_index st1 ! 0)
                     (min (hs ! 0) (iter_index st1 ! 0 + (e - b))) st1))[0 := 0]\<rparr>))
          else mirrored_loop mir hs is os (e - b) st1)
       else copy_loop mir hs is os (e - b) st1)"
    by (simp only: fft_fill_with_conjugate_symmetry_slice_def st1_def Let_def Range.select_convs)
  have st1: "0 \<le> iter_index st1 ! 0 \<and> iter_index st1 ! 0 < hs ! 0 \<and> iter_index st1 \<noteq> []
     \<and> mem st1 = m \<and> writes st1 = []"
  proof (cases "0 < b")
    case False
    then show ?thesis using ne s0 by (cases hs) (simp_all add: st1_def)
  next
    case True
    let ?s = "?st0\<lparr>iter_index := (iter_index ?st0)[0 := b smod hs ! 0]\<rparr>"
    have c: "b smod hs ! 0 = b mod hs ! 0" using True s0 by (simp add: smod_nonneg)
    have "iter_index ?s ! 0 = b mod hs ! 0" "length (iter_index ?s) = length hs"
      using ne c by (cases hs, simp_all)+
    with seek_from_keeps [of 1 mir hs "is" os "b sdiv hs ! 0" ?s] True s0 ne show ?thesis
      by (auto simp: st1_def)
  qed
  then have i0: "0 \<le> i0" "i0 < hs ! 0" and ne1: "iter_index st1 \<noteq> []"
    and m1: "mem st1 = m" and w1: "writes st1 = []"
    by (simp_all add: i0_def)
  have "\<exists>st' ws. fft_fill_with_conjugate_symmetry_slice \<lparr>range_begin = b, range_end = e\<rparr>
             mir hs is inp os outp m = Some st' \<and> extends st1 ws st' \<and> length ws = nat (e - b)"
  proof (cases "mir ! 0")
    case False
    then show ?thesis
      unfolding def' using copy_loop_count [OF s0, of st1 mir "is" os "e - b"] i0 ne1
      by (simp add: i0_def)
  next
    case True
    show ?thesis
    proof (cases "0 < i0")
      case False
      then show ?thesis
        unfolding def' using True mirrored_loop_count [OF s0, of mir "is" os "e - b" st1]
        by (simp add: i0_def)
    next
      case pos: True
      define e' where "e' = min (hs ! 0) (i0 + (e - b))"
      let ?st2 = "mirror_row (hs ! 0) (is ! 0) (os ! 0) i0 e' st1"
      let ?st3 = "advance_index mir hs is os (?st2\<lparr>iter_index := (iter_index ?st2)[0 := 0]\<rparr>)"
      let ?ws = "map (\<lambda>j. (out_ptr st1 + (hs ! 0 - j) * os ! 0, in_ptr st1 + j * is ! 0)) [i0..e' - 1]"
      have unf: "fft_fill_with_conjugate_symmetry_slice \<lparr>range_begin = b, range_end = e\<rparr>
             mir hs is inp os outp m = mirrored_loop mir hs is os (e - b - (e' - i0)) ?st3"
        unfolding def' using True pos by (simp add: i0_def e'_def)
      have E2: "extends st1 ?ws ?st2"
        using mirror_row_spec [of st1 "hs ! 0" "os ! 0" "is ! 0" i0 e'] by simp
      have E3: "extends ?st2 [] ?st3"
        using advance_index_from_keeps [of 1 mir hs "is" os "?st2\<lparr>iter_index := (iter_index ?st2)[0 := 0]\<rparr>"]
        by (simp add: advance_index_def extends_def replay_def)
      from mirrored_loop_count [OF s0, of mir "is" os "e - b - (e' - i0)" ?st3] obtain st' ws where
        run: "mirrored_loop mir hs is os (e - b - (e' - i0)) ?st3 = Some st'"
        and E4: "extends ?st3 ws st'" and l: "length ws = nat (e - b - (e' - i0))"
        by blast
      have "nat (e' - i0) + nat (e - b - (e' - i0)) = nat (e - b)"
        using i0 unfolding e'_def by linarith
      then have len: "length ((?ws @ []) @ ws) = nat (e - b)"
        using l by simp
      show ?thesis
        unfolding unf run
        by (intro exI conjI, rule refl, rule extends_trans [OF extends_trans [OF E2 E3] E4], rule len)
    qed
  qed
  then show ?thesis using m1 w1 by (auto simp: extends_def)
qed

lemma replay_snoc: "replay (ws @ [w]) m = conj_write (replay ws m) w"
  by (simp add: replay_def)

lemma replay_notin: "a \<notin> fst ` set ws \<Longrightarrow> replay ws m a = m a"
  by (induction ws rule: rev_induct) (auto simp: replay_snoc conj_write_def replay_def)

lemma replay_disjoint:
  assumes "distinct (map fst ws)" and "\<forall>w\<in>set ws. snd w \<notin> fst ` set ws" and "(d, s) \<in> set ws"
  shows "replay ws m d = cnj (m s)"
  using assms
proof (induction ws rule: rev_induct)
  case Nil
  then show ?case by simp
next
  case (snoc w ws)
  have nin: "snd w \<notin> fst ` set ws" using snoc.prems(2) by auto
  show ?case
  proof (cases "(d, s) = w")
    case True
    then show ?thesis
      using replay_notin [OF nin, of m] by (auto simp: replay_snoc conj_write_def)
  next
    case False
    then have mem: "(d, s) \<in> set ws" using snoc.prems(3) by auto
    then have "d \<noteq> fst w" using snoc.prems(1) by (auto simp: image_iff)
    moreover have "replay ws m d = cnj (m s)"
      using snoc.IH snoc.prems(1,2) mem by auto
    ultimately show ?thesis by (simp add: replay_snoc conj_write_def)
  qed
qed

lemma replay_distinct_nth:
  assumes d: "distinct (map fst ws)" and j: "j < length ws"
  shows "replay ws m (fst (ws ! j)) = cnj (replay (take j ws) m (snd (ws ! j)))"
proof -
  have sp: "ws = take j ws @ ws ! j # drop (Suc j) ws"
    using j by (rule id_take_nth_drop)
  have "distinct (map fst (take j ws @ ws ! j # drop (Suc j) ws))"
    using d sp by simp
  then have nin: "fst (ws ! j) \<notin> fst ` set (drop (Suc j) ws)" by auto
  have "replay ws m = replay (drop (Suc j) ws) (conj_write (replay (take j ws) m) (ws ! j))"
    by (subst sp) (simp add: replay_def)
  then have "replay ws m (fst (ws ! j)) = conj_write (replay (take j ws) m) (ws ! j) (fst (ws ! j))"
    using replay_notin [OF nin] by simp
  then show ?thesis by (simp add: conj_write_def)
qed

lemma distinct_map_shift:
  "distinct (map (\<lambda>k. (c :: int) + f k) xs) = distinct (map f xs)"
  by (simp add: distinct_map inj_on_def)

text \<open>When every mirrored dimension other than dimension 0 has extent at least 2 and the
  output positions of the range have pairwise distinct addresses, the slice writes
  \<open>e - b\<close> distinct elements, each once: the element at the reflected position of \<open>k\<close>
  finally holds the conjugate of the value that the assignment for \<open>k\<close> read at the
  position of \<open>k\<close>, and every other address keeps its value.\<close>

lemma slice_distinct_elements:
  assumes "well_formed mir hs is os" and "0 \<le> b"
    and "distinct (map (\<lambda>k. offset os (reflect_coords mir hs (unravel_index hs k))) [b..e - 1])"
  shows "\<exists>st. fft_fill_with_conjugate_symmetry_slice \<lparr>range_begin = b, range_end = e\<rparr>
            mir hs is inp os outp m = Some st
     \<and> writes st =
         map (\<lambda>k. (outp + offset os (reflect_coords mir hs (unravel_index hs k)),
                   inp + offset is (unravel_index hs k))) [b..e - 1]
     \<and> distinct (map fst (writes st))
     \<and> card (fst ` set (writes st)) = nat (e - b)
     \<and> (\<forall>j<length (writes st).
          mem st (fst (writes st ! j)) = cnj (replay (take j (writes st)) m (snd (writes st ! j))))
     \<and> (\<forall>a. a \<notin> fst ` set (writes st) \<longrightarrow> mem st a = m a)"
proof -
  from slice_spec [OF assms(1,2), of e inp outp m] obtain st where
    run: "fft_fill_with_conjugate_symmetry_slice \<lparr>range_begin = b, range_end = e\<rparr>
            mir hs is inp os outp m = Some st"
    and ws: "writes st = map (write_at mir hs is inp os outp) [b..e - 1]"
    and mem: "mem st = replay (writes st) m"
    by blast
  have ws': "writes st =
         map (\<lambda>k. (outp + offset os (reflect_coords mir hs (unravel_index hs k)),
                   inp + offset is (unravel_index hs k))) [b..e - 1]"
    unfolding ws write_at_def ..
  have "map fst (writes st) =
      map (\<lambda>k. outp + offset os (reflect_coords mir hs (unravel_index hs k))) [b..e - 1]"
    unfolding ws' by simp
  with assms(3) have d: "distinct (map fst (writes st))"
    by (simp only: distinct_map_shift)
  have len: "length (writes st) = nat (e - b)"
    unfolding ws' by simp
  have "card (fst ` set (writes st)) = card (set (map fst (writes st)))" by simp
  also have "\<dots> = length (map fst (writes st))" using d by (rule distinct_card)
  finally have c: "card (fst ` set (writes st)) = nat (e - b)" using len by simp
  have v: "\<forall>j<length (writes st).
          mem st (fst (writes st ! j)) = cnj (replay (take j (writes st)) m (snd (writes st ! j)))"
    unfolding mem using replay_distinct_nth [OF d] by blast
  have u: "\<forall>a. a \<notin> fst ` set (writes st) \<longrightarrow> mem st a = m a"
    unfolding mem using replay_notin by blast
  from run ws' d c v u show ?thesis by blast
qed

lemma run_slices_partition:
  assumes wf: "well_formed mir hs is os"
  shows "0 \<le> b \<Longrightarrow> partition_of b e rs \<Longrightarrow>
    run_slices rs mir hs is inp os outp m =
      Some (replay (map (write_at mir hs is inp os outp) [b..e - 1]) m)"
proof (induction rs arbitrary: b m)
  case Nil
  then show ?case by (simp add: replay_def)
next
  case (Cons r rs)
  define c where "c = range_end r"
  have r: "r = \<lparr>range_begin = b, range_end = c\<rparr>" and bc: "b \<le> c"
    and rest: "partition_of c e rs"
    using Cons.prems(2) by (simp_all add: c_def)
  from slice_spec [OF wf Cons.prems(1), of c inp outp m] obtain st where
    run: "fft_fill_with_conjugate_symmetry_slice r mir hs is inp os outp m = Some st"
    and mem: "mem st = replay (map (write_at mir hs is inp os outp) [b..c - 1]) m"
    unfolding r by auto
  have c0: "0 \<le> c" using bc Cons.prems(1) by simp
  have ce: "c \<le> e" using rest
  proof (induction rs arbitrary: c)
    case Nil
    then show ?case by simp
  next
    case (Cons a rs)
    from Cons.prems Cons.IH [of "range_end a"] show ?case by simp
  qed
  have sp: "[b..e - 1] = [b..c - 1] @ [c..e - 1]"
  proof (cases "c = e")
    case True
    then show ?thesis by simp
  next
    case False
    with ce have "c \<le> e - 1" by simp
    from upto_split1 [OF bc this] show ?thesis .
  qed
  show ?case
    using Cons.IH [OF c0 rest, of "mem st"] run
    by (simp add: mem sp replay_append)
qed

lemma length_unravel_index [simp]: "length (unravel_index hs k) = length hs"
  by (induction hs arbitrary: k) simp_all

lemma reflect_coords_nth:
  "length ms = length ss \<Longrightarrow> length cs = length ss \<Longrightarrow> d < length ss \<Longrightarrow>
     reflect_coords ms ss cs ! d = reflect (ms ! d) (ss ! d) (cs ! d)"
proof (induction ms ss cs arbitrary: d rule: reflect_coords.induct)
  case (1 m ms s ss c cs)
  then show ?case by (cases d) simp_all
qed simp_all

lemma example_writes_eval:
  "map (\<lambda>k. (10 + offset [1, 2] (reflect_coords [True, True] [2, 3] (unravel_index [2, 3] k)),
             0 + offset [1, 2] (unravel_index [2, 3] k))) [0..6 - 1]
   = [(10, 0), (11, 1), (14, 2), (15, 3), (12, 4), (13, 5)]"
  by code_simp

text \<open>Flagging dimension 0 as mirrored changes nothing when its extent is 1.\<close>

lemma extent_one_dim0_flag_irrelevant:
  assumes wf: "well_formed (True # ms) (1 # ss) is os" and b: "0 \<le> b"
  shows "map_option writes (fft_fill_with_conjugate_symmetry_slice
            \<lparr>range_begin = b, range_end = e\<rparr> (True # ms) (1 # ss) is inp os outp m)
       = map_option writes (fft_fill_with_conjugate_symmetry_slice
            \<lparr>range_begin = b, range_end = e\<rparr> (False # ms) (1 # ss) is inp os outp m)
     \<and> map_option mem (fft_fill_with_conjugate_symmetry_slice
            \<lparr>range_begin = b, range_end = e\<rparr> (True # ms) (1 # ss) is inp os outp m)
       = map_option mem (fft_fill_with_conjugate_symmetry_slice
            \<lparr>range_begin = b, range_end = e\<rparr> (False # ms) (1 # ss) is inp os outp m)"
proof -
  have wf': "well_formed (False # ms) (1 # ss) is os"
    using wf by (simp add: well_formed_def)
  have same: "write_at (True # ms) (1 # ss) is inp os outp = write_at (False # ms) (1 # ss) is inp os outp"
    by (rule ext) (simp add: write_at_def reflect_def)
  from slice_spec [OF wf b, of e inp outp m] obtain st where
    st: "fft_fill_with_conjugate_symmetry_slice \<lparr>range_begin = b, range_end = e\<rparr>
           (True # ms) (1 # ss) is inp os outp m = Some st"
    "writes st = map (write_at (True # ms) (1 # ss) is inp os outp) [b..e - 1]"
    "mem st = replay (writes st) m"
    by blast
  from slice_spec [OF wf' b, of e inp outp m] obtain st' where
    st': "fft_fill_with_conjugate_symmetry_slice \<lparr>range_begin = b, range_end = e\<rparr>
           (False # ms) (1 # ss) is inp os outp m = Some st'"
    "writes st' = map (write_at (False # ms) (1 # ss) is inp os outp) [b..e - 1]"
    "mem st' = replay (writes st') m"
    by blast
  show ?thesis unfolding st(1) st'(1) using st(2,3) st'(2,3) same by simp
qed

section \<open>The configurator\<close>

lemma smod_two_odd: "k smod 2 \<noteq> 0 \<longleftrightarrow> odd k" for k :: int
proof -
  have "\<bar>k\<bar> mod 2 = 0 \<longleftrightarrow> even k" by presburger
  moreover have "k smod 2 = 0 \<longleftrightarrow> \<bar>k\<bar> mod 2 = 0"
    by (auto simp: signed_modulo_int_def sgn_if)
  ultimately show ?thesis by simp
qed

lemma stride_loop_iff:
  "stride_loop t n i need \<longleftrightarrow> need \<or> (\<exists>j. i \<le> j \<and> j \<le> n \<and> odd (strides t ! j))"
proof (induction t n i need rule: stride_loop.induct)
  case (1 t n i need)
  show ?case
  proof (cases "\<not> need \<and> i \<le> n")
    case True
    have "(\<exists>j. i \<le> j \<and> j \<le> n \<and> odd (strides t ! j)) \<longleftrightarrow>
        odd (strides t ! i) \<or> (\<exists>j. Suc i \<le> j \<and> j \<le> n \<and> odd (strides t ! j))"
      using True by (metis Suc_leI le_neq_implies_less order_refl Suc_leD)
    with 1 [OF True] True show ?thesis
      by (subst stride_loop.simps) (simp add: smod_two_odd)
  next
    case False
    then show ?thesis by (subst stride_loop.simps) auto
  qed
qed

lemma complex_needs_contiguous_iff:
  "complex_needs_contiguous t n \<longleftrightarrow> last (strides t) \<noteq> 1 \<or> (\<exists>i\<le>n. odd (strides t ! i))"
  by (simp add: complex_needs_contiguous_def stride_loop_iff)

lemma preflight_step_error:
  "preflight_step M t os ci i p = Inl e \<Longrightarrow> e = SizeExceeded M"
  by (auto simp: preflight_step_def Let_def split: if_splits)



lemma preflight_step_large:
  "sizes t ! i > M \<or> os ! i > M \<Longrightarrow> preflight_step M t os ci i p = Inl (SizeExceeded M)"
  by (auto simp: preflight_step_def Let_def)

lemma preflight_loop_large:
  "i \<le> n \<Longrightarrow> sizes t ! i > M \<or> os ! i > M \<Longrightarrow>
     preflight_loop M t os ci n p = Inl (SizeExceeded M)"
proof (induction n arbitrary: p)
  case 0
  then show ?case by (simp add: preflight_step_large)
next
  case (Suc n)
  show ?case
  proof (cases "i = Suc n")
    case True
    with Suc.prems show ?thesis by (simp add: preflight_step_large)
  next
    case False
    with Suc.prems have "i \<le> n" by simp
    from Suc.IH [OF this Suc.prems(2)] show ?thesis
      by (auto split: sum.splits dest: preflight_step_error)
  qed
qed

lemma run_engine_trace:
  "run_engine engine tr cs = (tr', r) \<Longrightarrow> \<exists>k. tr' = tr @ map Engine (take k cs)"
proof (induction cs arbitrary: tr)
  case Nil
  then show ?case by simp
next
  case (Cons c cs)
  show ?case
  proof (cases "engine tr c = 0")
    case True
    with Cons.prems have "run_engine engine (tr @ [Engine c]) cs = (tr', r)" by simp
    from Cons.IH [OF this] obtain k where "tr' = (tr @ [Engine c]) @ map Engine (take k cs)" ..
    then have "tr' = tr @ map Engine (take (Suc k) (c # cs))" by simp
    then show ?thesis ..
  next
    case False
    with Cons.prems have "tr' = tr @ map Engine (take 1 (c # cs))" by simp
    then show ?thesis ..
  qed
qed

lemma run_engine_done:
  "run_engine engine tr cs = (tr', None) \<Longrightarrow> tr' = tr @ map Engine cs"
proof (induction cs arbitrary: tr)
  case Nil
  then show ?case by simp
next
  case (Cons c cs)
  show ?case
  proof (cases "engine tr c = 0")
    case True
    with Cons.prems have "run_engine engine (tr @ [Engine c]) cs = (tr', None)" by simp
    from Cons.IH [OF this] show ?thesis by simp
  next
    case False
    with Cons.prems show ?thesis by simp
  qed
qed

lemma scale_settings_append: "scale_settings (xs @ ys) = scale_settings xs @ scale_settings ys"
  by (induction xs rule: scale_settings.induct) simp_all

lemma fill_calls_append: "fill_calls (xs @ ys) = fill_calls xs @ fill_calls ys"
  by (induction xs rule: fill_calls.induct) simp_all

lemma fill_calls_engine [simp]: "fill_calls (map Engine cs) = []"
  by (induction cs) simp_all

lemma contiguous_scalar_type [simp]: "scalar_type (contiguous t) = scalar_type t"
  by (simp add: contiguous_def)

lemma fft_mkl_completed:
  assumes "snd (fft_mkl narrow M engine self n ci co iv szs nm onesided os) = Inr out"
  shows "(scalar_type self = Float \<or> scalar_type self = Double)
    \<and> out = empty_tensor os (scalar_type self)
    \<and> fst (fft_mkl narrow M engine self n ci co iv szs nm onesided os) =
        (if ci \<and> complex_needs_contiguous self n then [Contiguous] else []) @ [Empty os]
        @ map Engine (dfti_calls narrow (if scalar_type self = Double then DFTI_DOUBLE else DFTI_SINGLE)
            (sizes self ! 0)
            (if ci \<and> complex_needs_contiguous self n then contiguous self else self)
            out n ci co iv szs nm)
        @ (if \<not> ci \<and> co \<and> \<not> onesided
           then [FillWithConjugateSymmetry (view_as_complex out) (map int [1..<Suc n])] else [])"
proof -
  define copy where "copy = (ci \<and> complex_needs_contiguous self n)"
  define input where "input = (if copy then contiguous self else self)"
  define tr0 where "tr0 = (if copy then [Contiguous] else [])"
  define outp where "outp = empty_tensor os (scalar_type input)"
  have dt: "scalar_type input = scalar_type self" by (simp add: input_def)
  have unf: "fft_mkl narrow M engine self n ci co iv szs nm onesided os =
     (case overflow_preflight narrow M input os ci n of
           Inl e \<Rightarrow> (tr0, Inl e)
         | Inr _ \<Rightarrow>
              (case (if scalar_type input = Float then Some DFTI_SINGLE
                       else if scalar_type input = Double then Some DFTI_DOUBLE
                       else None) of
                   None \<Rightarrow> (tr0 @ [Empty os], Inl (UnsupportedType (scalar_type input)))
                 | Some prec \<Rightarrow>
                     (case run_engine engine (tr0 @ [Empty os])
                             (dfti_calls narrow prec (sizes self ! 0) input outp n ci co iv szs nm) of
                        (tr2, Some status) \<Rightarrow> (tr2, Inl (EngineError status))
                      | (tr2, None) \<Rightarrow>
                          (if \<not> ci \<and> co \<and> \<not> onesided
                           then (tr2 @ [FillWithConjugateSymmetry (view_as_complex outp)
                                          (map int [1..<Suc n])],
                                 Inr outp)
                           else (tr2, Inr outp)))))"
    by (simp only: fft_mkl_def Let_def copy_def input_def tr0_def outp_def)
  from assms obtain u where pre: "overflow_preflight narrow M input os ci n = Inr u"
    unfolding unf by (cases "overflow_preflight narrow M input os ci n") auto
  from assms pre have ty: "scalar_type self = Float \<or> scalar_type self = Double"
    unfolding unf dt by (auto split: if_splits)
  define prec where "prec = (if scalar_type self = Double then DFTI_DOUBLE else DFTI_SINGLE)"
  have sel: "(if scalar_type input = Float then Some DFTI_SINGLE
                       else if scalar_type input = Double then Some DFTI_DOUBLE
                       else None) = Some prec"
    using ty by (auto simp: dt prec_def)
  obtain tr2 r where run: "run_engine engine (tr0 @ [Empty os])
       (dfti_calls narrow prec (sizes self ! 0) input outp n ci co iv szs nm) = (tr2, r)"
    by (cases "run_engine engine (tr0 @ [Empty os])
       (dfti_calls narrow prec (sizes self ! 0) input outp n ci co iv szs nm)") auto
  have unf2: "fft_mkl narrow M engine self n ci co iv szs nm onesided os =
      (case r of
         Some status \<Rightarrow> (tr2, Inl (EngineError status))
       | None \<Rightarrow>
           (if \<not> ci \<and> co \<and> \<not> onesided
            then (tr2 @ [FillWithConjugateSymmetry (view_as_complex outp)
                           (map int [1..<Suc n])],
                  Inr outp)
            else (tr2, Inr outp)))"
    unfolding unf pre sel by (simp add: run)
  have r: "r = None" and out: "out = outp"
    using assms unfolding unf2 by (auto split: option.splits if_splits)
  have tr2: "tr2 = (tr0 @ [Empty os]) @
      map Engine (dfti_calls narrow prec (sizes self ! 0) input outp n ci co iv szs nm)"
    using run_engine_done [OF run [unfolded r]] .
  have tr: "fst (fft_mkl narrow M engine self n ci co iv szs nm onesided os) =
        tr0 @ [Empty os]
        @ map Engine (dfti_calls narrow prec (sizes self ! 0) input outp n ci co iv szs nm)
        @ (if \<not> ci \<and> co \<and> \<not> onesided
           then [FillWithConjugateSymmetry (view_as_complex outp) (map int [1..<Suc n])] else [])"
    unfolding unf2 r tr2 by simp
  have out': "out = empty_tensor os (scalar_type self)"
    unfolding out outp_def dt ..
  show ?thesis
  proof (intro conjI)
    show "scalar_type self = Float \<or> scalar_type self = Double" by (rule ty)
    show "out = empty_tensor os (scalar_type self)" by (rule out')
    show "fst (fft_mkl narrow M engine self n ci co iv szs nm onesided os) =
        (if ci \<and> complex_needs_contiguous self n then [Contiguous] else []) @ [Empty os]
        @ map Engine (dfti_calls narrow (if scalar_type self = Double then DFTI_DOUBLE else DFTI_SINGLE)
            (sizes self ! 0)
            (if ci \<and> complex_needs_contiguous self n then contiguous self else self)
            out n ci co iv szs nm)
        @ (if \<not> ci \<and> co \<and> \<not> onesided
           then [FillWithConjugateSymmetry (view_as_complex out) (map int [1..<Suc n])] else [])"
      unfolding tr out tr0_def input_def copy_def prec_def ..
  qed
qed

lemma engine_calls_append: "engine_calls (xs @ ys) = engine_calls xs @ engine_calls ys"
  by (induction xs rule: engine_calls.induct) simp_all

lemma scale_settings_engine_free:
  "scale_settings ((if c then [Contiguous] else []) @ [Empty os] @ tr @
      (if f then [FillWithConjugateSymmetry t dims] else [])) = scale_settings tr"
  by (simp add: scale_settings_append)

lemma fill_calls_trace:
  "fill_calls ((if c then [Contiguous] else []) @ [Empty os] @ map Engine cs @
      (if f then [FillWithConjugateSymmetry t dims] else [])) = (if f then [(t, dims)] else [])"
  by (simp add: fill_calls_append)

lemma scale_settings_dfti_calls:
  "scale_settings (map Engine (dfti_calls narrow prec batch input out n ci co iv szs nm)) =
     (if nm \<noteq> none
      then (case scale_of (if prec = DFTI_DOUBLE
                           then DoubleValue (if nm = by_root_n then OneOverSqrt (prod_list szs)
                                             else OneOver (prod_list szs))
                           else FloatValue (if nm = by_root_n then OneOverSqrt (prod_list szs)
                                            else OneOver (prod_list szs))) of
              Some (p, x) \<Rightarrow> [(if iv then DFTI_BACKWARD_SCALE else DFTI_FORWARD_SCALE, p, x)]
            | None \<Rightarrow> [])
      else [])"
  by (simp add: dfti_calls_def Let_def scale_settings_append split: option.splits)

lemma fft_mkl_unfold:
  "fft_mkl narrow M engine self n ci co iv szs nm onesided os =
     (case overflow_preflight narrow M
             (if ci \<and> complex_needs_contiguous self n then contiguous self else self) os ci n of
           Inl e \<Rightarrow> ((if ci \<and> complex_needs_contiguous self n then [Contiguous] else []), Inl e)
         | Inr _ \<Rightarrow>
              (case (if scalar_type self = Float then Some DFTI_SINGLE
                       else if scalar_type self = Double then Some DFTI_DOUBLE
                       else None) of
                   None \<Rightarrow> ((if ci \<and> complex_needs_contiguous self n then [Contiguous] else [])
                               @ [Empty os], Inl (UnsupportedType (scalar_type self)))
                 | Some prec \<Rightarrow>
                     (case run_engine engine
                             ((if ci \<and> complex_needs_contiguous self n then [Contiguous] else [])
                               @ [Empty os])
                             (dfti_calls narrow prec (sizes self ! 0)
                                (if ci \<and> complex_needs_contiguous self n then contiguous self else self)
                                (empty_tensor os (scalar_type self)) n ci co iv szs nm) of
                        (tr2, Some status) \<Rightarrow> (tr2, Inl (EngineError status))
                      | (tr2, None) \<Rightarrow>
                          (if \<not> ci \<and> co \<and> \<not> onesided
                           then (tr2 @ [FillWithConjugateSymmetry
                                          (view_as_complex (empty_tensor os (scalar_type self)))
                                          (map int [1..<Suc n])],
                                 Inr (empty_tensor os (scalar_type self)))
                           else (tr2, Inr (empty_tensor os (scalar_type self)))))))"
proof -
  have dt: "scalar_type (if ci \<and> complex_needs_contiguous self n then contiguous self else self)
      = scalar_type self" by simp
  show ?thesis
    by (simp only: fft_mkl_def Let_def dt)
qed

lemma fft_mkl_trace_head:
  "\<exists>rest. fst (fft_mkl narrow M engine self n ci co iv szs nm onesided os) =
       (if ci \<and> complex_needs_contiguous self n then [Contiguous] else []) @ rest
     \<and> Contiguous \<notin> set rest"
proof -
  let ?tr0 = "(if ci \<and> complex_needs_contiguous self n then [Contiguous] else [])"
  let ?input = "(if ci \<and> complex_needs_contiguous self n then contiguous self else self)"
  show ?thesis
  proof (cases "overflow_preflight narrow M ?input os ci n")
    case (Inl e)
    then have "fst (fft_mkl narrow M engine self n ci co iv szs nm onesided os) = ?tr0 @ []"
      unfolding fft_mkl_unfold by simp
    then show ?thesis by (intro exI [of _ "[]"]) simp
  next
    case (Inr u)
    show ?thesis
    proof (cases "scalar_type self = Float \<or> scalar_type self = Double")
      case False
      then have "fst (fft_mkl narrow M engine self n ci co iv szs nm onesided os) = ?tr0 @ [Empty os]"
        unfolding fft_mkl_unfold Inr by simp
      then show ?thesis by (intro exI [of _ "[Empty os]"]) simp
    next
      case True
      define prec where "prec = (if scalar_type self = Float then DFTI_SINGLE else DFTI_DOUBLE)"
      let ?cs = "dfti_calls narrow prec (sizes self ! 0) ?input (empty_tensor os (scalar_type self))
          n ci co iv szs nm"
      have sel: "(if scalar_type self = Float then Some DFTI_SINGLE
                       else if scalar_type self = Double then Some DFTI_DOUBLE
                       else None) = Some prec"
        using True by (auto simp: prec_def)
      obtain tr2 r where run: "run_engine engine (?tr0 @ [Empty os]) ?cs = (tr2, r)"
        by (cases "run_engine engine (?tr0 @ [Empty os]) ?cs") auto
      from run_engine_trace [OF run] obtain k where
        tr2: "tr2 = (?tr0 @ [Empty os]) @ map Engine (take k ?cs)" ..
      have "\<exists>tl. fst (fft_mkl narrow M engine self n ci co iv szs nm onesided os) = tr2 @ tl
          \<and> Contiguous \<notin> set tl"
        unfolding fft_mkl_unfold Inr sel by (cases r) (simp_all add: run)
      then obtain tl where
        f: "fst (fft_mkl narrow M engine self n ci co iv szs nm onesided os) = tr2 @ tl"
        and tl: "Contiguous \<notin> set tl" by blast
      have "fst (fft_mkl narrow M engine self n ci co iv szs nm onesided os) =
          ?tr0 @ ([Empty os] @ map Engine (take k ?cs) @ tl)"
        unfolding f tr2 by simp
      moreover have "Contiguous \<notin> set ([Empty os] @ map Engine (take k ?cs) @ tl)"
        using tl by auto
      ultimately show ?thesis by blast
    qed
  qed
qed

lemma fft_mkl_copy_iff:
  "Contiguous \<in> set (fst (fft_mkl narrow M engine self n ci co iv szs nm onesided os)) \<longleftrightarrow>
     ci \<and> complex_needs_contiguous self n"
proof -
  from fft_mkl_trace_head [of narrow M engine self n ci co iv szs nm onesided os]
  obtain rest where
    "fst (fft_mkl narrow M engine self n ci co iv szs nm onesided os) =
       (if ci \<and> complex_needs_contiguous self n then [Contiguous] else []) @ rest"
    "Contiguous \<notin> set rest" by blast
  then show ?thesis by simp
qed

lemma input_settings_append: "input_settings (xs @ ys) = input_settings xs @ input_settings ys"
  by (induction xs rule: input_settings.induct) simp_all

lemma compute_calls_append: "compute_calls (xs @ ys) = compute_calls xs @ compute_calls ys"
  by (induction xs rule: compute_calls.induct) simp_all

lemma input_settings_dfti_calls:
  "input_settings (map Engine (dfti_calls narrow prec batch input out n ci co iv szs nm)) =
     [(DFTI_INPUT_DISTANCE,
       LongValue (to_MKL_LONG narrow (if ci then strides input ! 0 div 2 else strides input ! 0))),
      (DFTI_INPUT_STRIDES,
       LongArray (0 # map (\<lambda>i. to_MKL_LONG narrow
                                (if ci then strides input ! i div 2 else strides input ! i))
                        [1..<Suc n]))]"
  by (simp add: dfti_calls_def Let_def input_settings_append)

lemma compute_calls_dfti_calls:
  "compute_calls (map Engine (dfti_calls narrow prec batch input out n ci co iv szs nm)) =
     [if \<not> iv then DftiComputeForward input out else DftiComputeBackward input out]"
  by (simp add: dfti_calls_def Let_def compute_calls_append)

lemma input_settings_trace:
  "input_settings ((if c then [Contiguous] else []) @ [Empty os] @ tr @
      (if f then [FillWithConjugateSymmetry t dims] else [])) = input_settings tr"
  by (simp add: input_settings_append)

lemma compute_calls_trace:
  "compute_calls ((if c then [Contiguous] else []) @ [Empty os] @ tr @
      (if f then [FillWithConjugateSymmetry t dims] else [])) = compute_calls tr"
  by (simp add: compute_calls_append)

lemma engine_calls_map_Engine: "engine_calls (map Engine cs) = cs"
  by (induction cs) simp_all

lemma fft_mkl_trace_shape:
  "\<exists>rest k. fst (fft_mkl narrow M engine self n ci co iv szs nm onesided os) =
       (if ci \<and> complex_needs_contiguous self n then [Contiguous] else []) @ rest
     \<and> Contiguous \<notin> set rest
     \<and> engine_calls rest = take k (dfti_calls narrow
          (if scalar_type self = Double then DFTI_DOUBLE else DFTI_SINGLE) (sizes self ! 0)
          (if ci \<and> complex_needs_contiguous self n then contiguous self else self)
          (empty_tensor os (scalar_type self)) n ci co iv szs nm)"
proof -
  let ?tr0 = "(if ci \<and> complex_needs_contiguous self n then [Contiguous] else [])"
  let ?input = "(if ci \<and> complex_needs_contiguous self n then contiguous self else self)"
  define prec where "prec = (if scalar_type self = Double then DFTI_DOUBLE else DFTI_SINGLE)"
  let ?cs = "dfti_calls narrow prec (sizes self ! 0) ?input (empty_tensor os (scalar_type self))
      n ci co iv szs nm"
  have "\<exists>rest k. fst (fft_mkl narrow M engine self n ci co iv szs nm onesided os) = ?tr0 @ rest
     \<and> Contiguous \<notin> set rest \<and> engine_calls rest = take k ?cs"
  proof (cases "overflow_preflight narrow M ?input os ci n")
    case (Inl e)
    then have "fst (fft_mkl narrow M engine self n ci co iv szs nm onesided os) = ?tr0 @ []"
      unfolding fft_mkl_unfold by simp
    moreover have "engine_calls [] = take 0 ?cs" by simp
    ultimately show ?thesis by (intro exI [of _ "[]"] exI [of _ 0]) simp
  next
    case (Inr u)
    show ?thesis
    proof (cases "scalar_type self = Float \<or> scalar_type self = Double")
      case False
      then have "fst (fft_mkl narrow M engine self n ci co iv szs nm onesided os) = ?tr0 @ [Empty os]"
        unfolding fft_mkl_unfold Inr by simp
      then show ?thesis by (intro exI [of _ "[Empty os]"] exI [of _ 0]) simp
    next
      case True
      have sel: "(if scalar_type self = Float then Some DFTI_SINGLE
                       else if scalar_type self = Double then Some DFTI_DOUBLE
                       else None) = Some prec"
        using True by (auto simp: prec_def)
      obtain tr2 r where run: "run_engine engine (?tr0 @ [Empty os]) ?cs = (tr2, r)"
        by (cases "run_engine engine (?tr0 @ [Empty os]) ?cs") auto
      from run_engine_trace [OF run] obtain k where
        tr2: "tr2 = (?tr0 @ [Empty os]) @ map Engine (take k ?cs)" ..
      have "\<exists>tl. fst (fft_mkl narrow M engine self n ci co iv szs nm onesided os) = tr2 @ tl
          \<and> Contiguous \<notin> set tl \<and> engine_calls tl = []"
        unfolding fft_mkl_unfold Inr sel by (cases r) (simp_all add: run)
      then obtain tl where
        f: "fst (fft_mkl narrow M engine self n ci co iv szs nm onesided os) = tr2 @ tl"
        and tl: "Contiguous \<notin> set tl" and etl: "engine_calls tl = []" by blast
      have "fst (fft_mkl narrow M engine self n ci co iv szs nm onesided os) =
          ?tr0 @ ([Empty os] @ map Engine (take k ?cs) @ tl)"
        unfolding f tr2 by simp
      moreover have "Contiguous \<notin> set ([Empty os] @ map Engine (take k ?cs) @ tl)"
        using tl by auto
      moreover have "engine_calls ([Empty os] @ map Engine (take k ?cs) @ tl) = take k ?cs"
        using etl by (simp add: engine_calls_append engine_calls_map_Engine)
      ultimately show ?thesis by blast
    qed
  qed
  then show ?thesis unfolding prec_def .
qed

lemma fft_mkl_input_used:
  assumes "snd (fft_mkl narrow M engine self n ci co iv szs nm onesided os) = Inr out"
  shows "input_settings (fst (fft_mkl narrow M engine self n ci co iv szs nm onesided os)) =
     [(DFTI_INPUT_DISTANCE,
       LongValue (to_MKL_LONG narrow
         (if ci then strides (if ci \<and> complex_needs_contiguous self n then contiguous self else self) ! 0 div 2
          else strides (if ci \<and> complex_needs_contiguous self n then contiguous self else self) ! 0))),
      (DFTI_INPUT_STRIDES,
       LongArray (0 # map (\<lambda>i. to_MKL_LONG narrow
          (if ci then strides (if ci \<and> complex_needs_contiguous self n then contiguous self else self) ! i div 2
           else strides (if ci \<and> complex_needs_contiguous self n then contiguous self else self) ! i))
                        [1..<Suc n]))]
   \<and> compute_calls (fst (fft_mkl narrow M engine self n ci co iv szs nm onesided os)) =
     [if \<not> iv
      then DftiComputeForward (if ci \<and> complex_needs_contiguous self n then contiguous self else self) out
      else DftiComputeBackward (if ci \<and> complex_needs_contiguous self n then contiguous self else self) out]"
proof -
  from fft_mkl_completed [OF assms]
  have tr: "fst (fft_mkl narrow M engine self n ci co iv szs nm onesided os) =
        (if ci \<and> complex_needs_contiguous self n then [Contiguous] else []) @ [Empty os]
        @ map Engine (dfti_calls narrow (if scalar_type self = Double then DFTI_DOUBLE else DFTI_SINGLE)
            (sizes self ! 0)
            (if ci \<and> complex_needs_contiguous self n then contiguous self else self)
            out n ci co iv szs nm)
        @ (if \<not> ci \<and> co \<and> \<not> onesided
           then [FillWithConjugateSymmetry (view_as_complex out) (map int [1..<Suc n])] else [])"
    by blast
  show ?thesis
    unfolding tr input_settings_trace compute_calls_trace
      input_settings_dfti_calls compute_calls_dfti_calls by simp
qed


lemma fft_mkl_rejects_large_extent:
  assumes "narrow" and "i \<le> n" and "sizes self ! i > M \<or> os ! i > M"
  shows "snd (fft_mkl narrow M engine self n ci co iv szs nm onesided os) = Inl (SizeExceeded M)"
proof -
  let ?input = "(if ci \<and> complex_needs_contiguous self n then contiguous self else self)"
  have "sizes ?input = sizes self" by (simp add: contiguous_def)
  with assms(3) have "sizes ?input ! i > M \<or> os ! i > M" by simp
  from preflight_loop_large [OF assms(2) this]
  have "overflow_preflight narrow M ?input os ci n = Inl (SizeExceeded M)"
    using assms(1) by (simp add: overflow_preflight_def)
  then show ?thesis unfolding fft_mkl_unfold by simp
qed

section \<open>The claims\<close>

subsection \<open>C1\<close>

text \<open>
  C1, as stated, ends with an example: the half-spectrum \<open>(3,)\<close> with values
  \<open>[2, 1+i, i]\<close> and \<open>mirror_dims = {0}\<close> expands to \<open>[2, 1+i, i, 1-i]\<close>. The code
  reflects inside the three half-buffer indices: it assigns \<open>out[0] = conj(in[0])\<close>,
  \<open>out[2] = conj(in[1])\<close>, \<open>out[1] = conj(in[2])\<close> and never touches index 3. With a
  separate output buffer (addresses 10 to 13, initially 0) the result is
  \<open>[2, -i, 1-i, 0]\<close>, and run in place through the entry point on a buffer of four
  elements it is \<open>[2, 1+i, 1-i, 0]\<close>. If the extent handed to the routine is the full
  length 4 instead, the in-place run does write index 3 with the conjugate of index 1,
  but it also conjugates index 2: \<open>[2, 1+i, -i, 1-i]\<close>. None of the three is the
  claimed result.
\<close>

theorem C1_counterexample:
  "read_back (fft_fill_with_conjugate_symmetry_slice \<lparr>range_begin = 0, range_end = 3\<rparr>
       [True] [3] [1] 0 [1] 10 (buffer 0 [Complex 2 0, Complex 1 1, Complex 0 1])) [10, 11, 12, 13]
     = Some [Complex 2 0, Complex 0 (- 1), Complex 1 (- 1), Complex 0 0]
   \<and> read_back (fft_fill_with_conjugate_symmetry_slice \<lparr>range_begin = 0, range_end = 3\<rparr>
       [True] [3] [1] 0 [1] 10 (buffer 0 [Complex 2 0, Complex 1 1, Complex 0 1])) [10, 11, 12, 13]
     \<noteq> Some [Complex 2 0, Complex 1 1, Complex 0 1, Complex 1 (- 1)]
   \<and> read_result (fft_fill_with_conjugate_symmetry_cpu ComplexDouble [0] [3] [16] 0 [16] 0
       [\<lparr>range_begin = 0, range_end = 3\<rparr>]
       (buffer 0 [Complex 2 0, Complex 1 1, Complex 0 1])) [0, 1, 2, 3]
     = Some [Complex 2 0, Complex 1 1, Complex 1 (- 1), Complex 0 0]
   \<and> read_result (fft_fill_with_conjugate_symmetry_cpu ComplexDouble [0] [3] [16] 0 [16] 0
       [\<lparr>range_begin = 0, range_end = 3\<rparr>]
       (buffer 0 [Complex 2 0, Complex 1 1, Complex 0 1])) [0, 1, 2, 3]
     \<noteq> Some [Complex 2 0, Complex 1 1, Complex 0 1, Complex 1 (- 1)]
   \<and> read_result (fft_fill_with_conjugate_symmetry_cpu ComplexDouble [0] [4] [16] 0 [16] 0
       [\<lparr>range_begin = 0, range_end = 4\<rparr>]
       (buffer 0 [Complex 2 0, Complex 1 1, Complex 0 1])) [0, 1, 2, 3]
     = Some [Complex 2 0, Complex 1 1, Complex 0 (- 1), Complex 1 (- 1)]
   \<and> read_result (fft_fill_with_conjugate_symmetry_cpu ComplexDouble [0] [4] [16] 0 [16] 0
       [\<lparr>range_begin = 0, range_end = 4\<rparr>]
       (buffer 0 [Complex 2 0, Complex 1 1, Complex 0 1])) [0, 1, 2, 3]
     \<noteq> Some [Complex 2 0, Complex 1 1, Complex 0 1, Complex 1 (- 1)]"
  by code_simp

text \<open>
  C1, amended: for arrays of \<open>ndim \<ge> 1\<close> entries with positive extents in which every
  mirrored dimension other than dimension 0 has extent at least 2, and every range
  \<open>[b, e)\<close> with \<open>0 \<le> b\<close>, the slice returns, and the assignments it executes are, for
  the linear indices \<open>k = b, ..., e - 1\<close> in this order,
  \<open>out[reflected coordinates of k] = conj(in[coordinates of k])\<close>, where a coordinate
  \<open>c\<close> of a mirrored dimension of extent \<open>s\<close> is reflected to \<open>s - c\<close> when
  \<open>1 \<le> c < s\<close> and coordinate 0, like every coordinate of a dimension that is not
  mirrored, stays where it is. When no two of these assignments write the same address
  and none reads an address that one of them writes, the output finally holds at the
  reflected position of \<open>k\<close> the conjugate of the input value at the position of \<open>k\<close>.
\<close>

theorem C1_fill_reflects_and_conjugates:
  assumes "well_formed mir hs is os" and "0 \<le> b"
  shows "\<exists>st. fft_fill_with_conjugate_symmetry_slice \<lparr>range_begin = b, range_end = e\<rparr>
            mir hs is inp os outp m = Some st
     \<and> writes st =
         map (\<lambda>k. (outp + offset os (reflect_coords mir hs (unravel_index hs k)),
                   inp + offset is (unravel_index hs k))) [b..e - 1]
     \<and> mem st = replay (writes st) m
     \<and> (distinct (map fst (writes st)) \<and> (\<forall>w\<in>set (writes st). snd w \<notin> fst ` set (writes st)) \<longrightarrow>
          (\<forall>k\<in>{b..<e}. mem st (outp + offset os (reflect_coords mir hs (unravel_index hs k)))
                            = cnj (m (inp + offset is (unravel_index hs k)))))"
proof -
  from slice_spec [OF assms, of e inp outp m] obtain st where
    run: "fft_fill_with_conjugate_symmetry_slice \<lparr>range_begin = b, range_end = e\<rparr>
            mir hs is inp os outp m = Some st"
    and ws: "writes st = map (write_at mir hs is inp os outp) [b..e - 1]"
    and mem: "mem st = replay (writes st) m"
    by blast
  have ws': "writes st =
         map (\<lambda>k. (outp + offset os (reflect_coords mir hs (unravel_index hs k)),
                   inp + offset is (unravel_index hs k))) [b..e - 1]"
    unfolding ws write_at_def ..
  have val: "mem st (outp + offset os (reflect_coords mir hs (unravel_index hs k)))
                            = cnj (m (inp + offset is (unravel_index hs k)))"
    if d: "distinct (map fst (writes st))" and s: "\<forall>w\<in>set (writes st). snd w \<notin> fst ` set (writes st)"
      and k: "k \<in> {b..<e}" for k
  proof -
    have "(outp + offset os (reflect_coords mir hs (unravel_index hs k)),
           inp + offset is (unravel_index hs k)) \<in> set (writes st)"
      unfolding ws' using k by auto
    from replay_disjoint [OF d s this, of m] show ?thesis by (simp add: mem)
  qed
  from run ws' mem val show ?thesis by blast
qed

theorem C1_fill_reflects_and_conjugates_witness:
  "well_formed [True, True] [2, 3] [1, 2] [1, 2] \<and> (0 :: int) \<le> 0
   \<and> (\<exists>st. fft_fill_with_conjugate_symmetry_slice \<lparr>range_begin = 0, range_end = 6\<rparr>
            [True, True] [2, 3] [1, 2] 0 [1, 2] 10
            (buffer 0 [Complex 1 0, Complex 2 1, Complex 3 2, Complex 4 3, Complex 5 4, Complex 6 5])
          = Some st
      \<and> writes st = [(10, 0), (11, 1), (14, 2), (15, 3), (12, 4), (13, 5)]
      \<and> mem st 14 = Complex 3 (- 2) \<and> mem st 13 = Complex 6 (- 5))"
proof -
  let ?m = "buffer 0 [Complex 1 0, Complex 2 1, Complex 3 2, Complex 4 3, Complex 5 4, Complex 6 5]"
  have wf: "well_formed [True, True] [2, 3] [1, 2] [1, 2]"
    by (simp add: well_formed_def)
  from C1_fill_reflects_and_conjugates [OF wf order_refl, of 6 0 10 ?m]
  obtain st where run: "fft_fill_with_conjugate_symmetry_slice \<lparr>range_begin = 0, range_end = 6\<rparr>
            [True, True] [2, 3] [1, 2] 0 [1, 2] 10 ?m = Some st"
    and ws: "writes st = [(10, 0), (11, 1), (14, 2), (15, 3), (12, 4), (13, 5)]"
    and val: "distinct (map fst (writes st)) \<and> (\<forall>w\<in>set (writes st). snd w \<notin> fst ` set (writes st)) \<longrightarrow>
          (\<forall>k\<in>{0..<6}. mem st (10 + offset [1, 2] (reflect_coords [True, True] [2, 3] (unravel_index [2, 3] k)))
                            = cnj (?m (0 + offset [1, 2] (unravel_index [2, 3] k))))"
    unfolding example_writes_eval by blast
  have all: "\<forall>k\<in>{0..<6}. mem st (10 + offset [1, 2] (reflect_coords [True, True] [2, 3] (unravel_index [2, 3] k)))
                            = cnj (?m (0 + offset [1, 2] (unravel_index [2, 3] k)))"
    using val unfolding ws by simp
  have "mem st 14 = Complex 3 (- 2)"
    using bspec [OF all, of 2] by (simp add: reflect_def buffer_def complex_eq_iff)
  moreover have "mem st 13 = Complex 6 (- 5)"
    using bspec [OF all, of 5] by (simp add: reflect_def buffer_def complex_eq_iff)
  ultimately show ?thesis using wf run ws by simp
qed

subsection \<open>C2\<close>

text \<open>
  C2: one call over \<open>[0, numel)\<close> leaves the same output as the calls over the
  sub-ranges of a partition. The code breaks this when a dimension other than dimension 0
  is flagged as mirrored and has extent 1: leaving such a dimension, \<^verbatim>\<open>advance_index\<close>
  subtracts its output stride although the pointer never moved in it, so a single call
  drifts, while a call that starts at a later offset recomputes its pointer without the
  drift. For extents \<open>(2, 1, 2)\<close> with dimension 1 flagged and contiguous strides, the
  single call writes rows 0 and 1 both to addresses 10 and 11; the two calls over
  \<open>[0, 2)\<close> and \<open>[2, 4)\<close> write addresses 10 to 13. (Lemma \<open>run_slices_partition\<close>
  above shows that partitions do not matter once every mirrored dimension other than
  dimension 0 has extent at least 2.)
\<close>

theorem C2_partition_changes_result:
  "read_mem (run_slices [\<lparr>range_begin = 0, range_end = 4\<rparr>]
       [False, True, False] [2, 1, 2] [1, 2, 2] 0 [1, 2, 2] 10
       (buffer 0 [Complex 1 1, Complex 2 0, Complex 3 0, Complex 0 4])) [10, 11, 12, 13]
     = Some [Complex 3 0, Complex 0 (- 4), Complex 0 0, Complex 0 0]
   \<and> read_mem (run_slices [\<lparr>range_begin = 0, range_end = 2\<rparr>, \<lparr>range_begin = 2, range_end = 4\<rparr>]
       [False, True, False] [2, 1, 2] [1, 2, 2] 0 [1, 2, 2] 10
       (buffer 0 [Complex 1 1, Complex 2 0, Complex 3 0, Complex 0 4])) [10, 11, 12, 13]
     = Some [Complex 1 (- 1), Complex 2 0, Complex 3 0, Complex 0 (- 4)]"
  by code_simp

subsection \<open>C3\<close>

text \<open>
  C3: with a narrow engine index type, a request whose input stride exceeds the maximum
  while the contiguous element count stays in range passes the check and the input is
  copied to contiguous layout before execution. The check of lines 211-235 only sets its
  local flag \<^verbatim>\<open>need_contiguous\<close>; nothing reads the flag afterwards, no copy is made, and
  the strides above the maximum reach the engine. With the maximum 100, a real input of
  sizes \<open>(2, 2)\<close> and strides \<open>(400, 200)\<close> passes, its trace holds no copy, and the
  sixth engine call sets the input strides \<open>[0, 200]\<close>. (Lemma
  \<open>fft_mkl_rejects_large_extent\<close> above shows the first part of the claim: an extent above
  the maximum is rejected.)
\<close>

theorem C3_preflight_never_copies:
  "valid_request \<lparr>sizes = [2, 2], strides = [400, 200], scalar_type = Float\<rparr> 1 False [2, 2, 2]
   \<and> snd (fft_mkl True 100 engine_ok \<lparr>sizes = [2, 2], strides = [400, 200], scalar_type = Float\<rparr> 1
         False True False [2] none True [2, 2, 2])
     = Inr \<lparr>sizes = [2, 2, 2], strides = [4, 2, 1], scalar_type = Float\<rparr>
   \<and> Contiguous \<notin> set (fst (fft_mkl True 100 engine_ok
         \<lparr>sizes = [2, 2], strides = [400, 200], scalar_type = Float\<rparr> 1
         False True False [2] none True [2, 2, 2]))
   \<and> engine_calls (fst (fft_mkl True 100 engine_ok
         \<lparr>sizes = [2, 2], strides = [400, 200], scalar_type = Float\<rparr> 1
         False True False [2] none True [2, 2, 2])) ! 5
     = DftiSetValue DFTI_INPUT_STRIDES (LongArray [0, 200])"
  by code_simp

subsection \<open>C4\<close>

text \<open>
  C4, as stated, says that a dimension excluded from \<open>mirror_dims\<close> is copied unchanged,
  not conjugated. Every assignment of the routine conjugates: with one dimension of
  extent 2 that is not mirrored, the input \<open>[1+i, 2+3i]\<close> gives \<open>[1-i, 2-3i]\<close>.
\<close>

theorem C4_counterexample:
  "read_back (fft_fill_with_conjugate_symmetry_slice \<lparr>range_begin = 0, range_end = 2\<rparr>
       [False] [2] [1] 0 [1] 10 (buffer 0 [Complex 1 1, Complex 2 3])) [10, 11]
     = Some [Complex 1 (- 1), Complex 2 (- 3)]
   \<and> read_back (fft_fill_with_conjugate_symmetry_slice \<lparr>range_begin = 0, range_end = 2\<rparr>
       [False] [2] [1] 0 [1] 10 (buffer 0 [Complex 1 1, Complex 2 3])) [10, 11]
     \<noteq> Some [Complex 1 1, Complex 2 3]"
  by code_simp

text \<open>
  C4, amended: under the same conditions as for C1, the \<open>j\<close>-th assignment reads the
  input at the coordinates of the linear index \<open>b + j\<close> and writes the output at
  coordinates that, in every dimension excluded from the mirrored ones, are the same (not
  reflected); the value written is the complex conjugate of the value read.
\<close>

theorem C4_unmirrored_dims_keep_coordinates:
  assumes "well_formed mir hs is os" and "0 \<le> b"
  shows "\<exists>st. fft_fill_with_conjugate_symmetry_slice \<lparr>range_begin = b, range_end = e\<rparr>
            mir hs is inp os outp m = Some st
     \<and> length (writes st) = nat (e - b)
     \<and> (\<forall>j<length (writes st).
          writes st ! j =
            (outp + offset os (reflect_coords mir hs (unravel_index hs (b + int j))),
             inp + offset is (unravel_index hs (b + int j)))
          \<and> (\<forall>d<length hs. \<not> mir ! d \<longrightarrow>
                reflect_coords mir hs (unravel_index hs (b + int j)) ! d
                  = unravel_index hs (b + int j) ! d))
     \<and> mem st = foldl (\<lambda>m w. m(fst w := cnj (m (snd w)))) m (writes st)"
proof -
  from slice_spec [OF assms, of e inp outp m] obtain st where
    run: "fft_fill_with_conjugate_symmetry_slice \<lparr>range_begin = b, range_end = e\<rparr>
            mir hs is inp os outp m = Some st"
    and ws: "writes st = map (write_at mir hs is inp os outp) [b..e - 1]"
    and mem: "mem st = replay (writes st) m"
    by blast
  have len: "length (writes st) = nat (e - b)" unfolding ws by simp
  have lens: "length mir = length hs" using assms(1) by (simp add: well_formed_def)
  have nth: "writes st ! j =
            (outp + offset os (reflect_coords mir hs (unravel_index hs (b + int j))),
             inp + offset is (unravel_index hs (b + int j)))" if "j < length (writes st)" for j
  proof -
    have "[b..e - 1] ! j = b + int j" using that len by simp
    then show ?thesis unfolding ws using that len by (simp add: write_at_def)
  qed
  have same: "reflect_coords mir hs (unravel_index hs k) ! d = unravel_index hs k ! d"
    if "d < length hs" "\<not> mir ! d" for k d
    using that lens by (simp add: reflect_coords_nth reflect_def)
  have mem': "mem st = foldl (\<lambda>m w. m(fst w := cnj (m (snd w)))) m (writes st)"
    unfolding mem replay_def conj_write_def ..
  from run len nth same mem' show ?thesis by blast
qed

theorem C4_unmirrored_dims_keep_coordinates_witness:
  "well_formed [False, True] [2, 3] [1, 2] [1, 2] \<and> (0 :: int) \<le> 0
   \<and> (\<exists>st. fft_fill_with_conjugate_symmetry_slice \<lparr>range_begin = 0, range_end = 6\<rparr>
            [False, True] [2, 3] [1, 2] 0 [1, 2] 10
            (buffer 0 [Complex 1 0, Complex 2 1, Complex 3 2, Complex 4 3, Complex 5 4, Complex 6 5])
          = Some st
      \<and> length (writes st) = 6
      \<and> writes st ! 3 = (15, 3)
      \<and> reflect_coords [False, True] [2, 3] (unravel_index [2, 3] 3) ! 0
           = unravel_index [2, 3] 3 ! 0)"
proof -
  let ?m = "buffer 0 [Complex 1 0, Complex 2 1, Complex 3 2, Complex 4 3, Complex 5 4, Complex 6 5]"
  have wf: "well_formed [False, True] [2, 3] [1, 2] [1, 2]"
    by (simp add: well_formed_def)
  from C4_unmirrored_dims_keep_coordinates [OF wf order_refl, of 6 0 10 ?m]
  obtain st where run: "fft_fill_with_conjugate_symmetry_slice \<lparr>range_begin = 0, range_end = 6\<rparr>
            [False, True] [2, 3] [1, 2] 0 [1, 2] 10 ?m = Some st"
    and len: "length (writes st) = nat (6 - 0)"
    and all: "\<forall>j<length (writes st).
          writes st ! j =
            (10 + offset [1, 2] (reflect_coords [False, True] [2, 3] (unravel_index [2, 3] (0 + int j))),
             0 + offset [1, 2] (unravel_index [2, 3] (0 + int j)))
          \<and> (\<forall>d<length [2, 3 :: int]. \<not> [False, True] ! d \<longrightarrow>
                reflect_coords [False, True] [2, 3] (unravel_index [2, 3] (0 + int j)) ! d
                  = unravel_index [2, 3] (0 + int j) ! d)"
    by blast
  have l3: "(3 :: nat) < length (writes st)" using len by simp
  have w3: "writes st ! 3 = (15, 3)"
    using spec [OF all, of 3] l3 by (simp add: reflect_def)
  have c3: "reflect_coords [False, True] [2, 3] (unravel_index [2, 3] 3) ! 0
           = unravel_index [2, 3] 3 ! 0"
    by (simp add: reflect_def)
  from wf run len w3 c3 show ?thesis by simp
qed

subsection \<open>C5\<close>

text \<open>
  C5, as stated, makes the copy depend on the stride of the last dimension and on the
  strides of the transformed dimensions. The loop of lines 199-201 starts at dimension 0,
  the batch dimension: a complex input with strides \<open>(5, 2, 1)\<close> and one transformed
  dimension is copied, although its last stride is 1 and the stride of its transformed
  dimension is even.
\<close>

theorem C5_counterexample:
  "valid_request \<lparr>sizes = [2, 2, 2], strides = [5, 2, 1], scalar_type = Float\<rparr> 1 True [2, 2, 2]
   \<and> Contiguous \<in> set (fst (fft_mkl False 100 engine_ok
       \<lparr>sizes = [2, 2, 2], strides = [5, 2, 1], scalar_type = Float\<rparr> 1 True True False [2] none
       True [2, 2, 2]))
   \<and> last (strides \<lparr>sizes = [2, 2, 2], strides = [5, 2, 1], scalar_type = Float\<rparr>) = 1
   \<and> \<not> odd (strides \<lparr>sizes = [2, 2, 2], strides = [5, 2, 1], scalar_type = Float\<rparr> ! 1)"
  by code_simp

text \<open>
  C5, amended: for every complex-valued input tensor (with a stride for each of the
  dimensions \<open>0, ..., signal_ndim\<close> and for the dimension of the real and imaginary
  parts), the configurator forces the contiguous copy of the input before configuring the
  engine if and only if the stride of the last dimension is not 1 or the stride of one of
  the dimensions \<open>0, ..., signal_ndim\<close> (the batch dimension and the transformed
  dimensions) is odd; otherwise, and for every real-valued input, the input is used as it
  is. In the trace the copy, when made, is the first event and the only copy; every engine
  call that follows is one of the calls computed from the tensor in use (the copy when
  one was made, the input itself otherwise); and in a run that completes, the input
  distance and the input strides given to the engine are those of the tensor in use and
  the compute call is given its data.
\<close>

theorem C5_contiguous_copy_condition:
  fixes self :: Tensor and signal_ndim :: nat and complex_input complex_output :: bool
    and narrow inverse' onesided :: bool and MKL_LONG_MAX :: int
    and engine :: "event list \<Rightarrow> dfti_call \<Rightarrow> int"
    and checked_signal_sizes output_sizes :: "int list" and normalization :: fft_norm_mode
  defines "copied \<equiv> complex_input \<and>
       (last (strides self) \<noteq> 1 \<or> (\<exists>i\<le>signal_ndim. odd (strides self ! i)))"
  defines "used \<equiv> if copied then contiguous self else self"
  defines "run \<equiv> fft_mkl narrow MKL_LONG_MAX engine self signal_ndim complex_input
        complex_output inverse' checked_signal_sizes normalization onesided output_sizes"
  assumes "valid_request self signal_ndim complex_input output_sizes"
  shows "(Contiguous \<in> set (fst run) \<longleftrightarrow> copied)
   \<and> (\<exists>rest k. fst run = (if copied then [Contiguous] else []) @ rest
        \<and> Contiguous \<notin> set rest
        \<and> engine_calls rest = take k (dfti_calls narrow
             (if scalar_type self = Double then DFTI_DOUBLE else DFTI_SINGLE) (sizes self ! 0)
             used (empty_tensor output_sizes (scalar_type self)) signal_ndim complex_input
             complex_output inverse' checked_signal_sizes normalization))
   \<and> (\<forall>out. snd run = Inr out \<longrightarrow>
        input_settings (fst run) =
          [(DFTI_INPUT_DISTANCE,
            LongValue (to_MKL_LONG narrow
              (if complex_input then strides used ! 0 div 2 else strides used ! 0))),
           (DFTI_INPUT_STRIDES,
            LongArray (0 # map (\<lambda>i. to_MKL_LONG narrow
                (if complex_input then strides used ! i div 2 else strides used ! i))
              [1..<Suc signal_ndim]))]
      \<and> compute_calls (fst run) =
          [if \<not> inverse' then DftiComputeForward used out else DftiComputeBackward used out])"
proof -
  have c: "copied \<longleftrightarrow> complex_input \<and> complex_needs_contiguous self signal_ndim"
    by (simp add: copied_def complex_needs_contiguous_iff)
  have 1: "Contiguous \<in> set (fst run) \<longleftrightarrow> copied"
    unfolding run_def c by (rule fft_mkl_copy_iff)
  have 2: "\<exists>rest k. fst run = (if copied then [Contiguous] else []) @ rest
        \<and> Contiguous \<notin> set rest
        \<and> engine_calls rest = take k (dfti_calls narrow
             (if scalar_type self = Double then DFTI_DOUBLE else DFTI_SINGLE) (sizes self ! 0)
             used (empty_tensor output_sizes (scalar_type self)) signal_ndim complex_input
             complex_output inverse' checked_signal_sizes normalization)"
    unfolding run_def used_def c by (rule fft_mkl_trace_shape)
  have 3: "\<forall>out. snd run = Inr out \<longrightarrow>
        input_settings (fst run) =
          [(DFTI_INPUT_DISTANCE,
            LongValue (to_MKL_LONG narrow
              (if complex_input then strides used ! 0 div 2 else strides used ! 0))),
           (DFTI_INPUT_STRIDES,
            LongArray (0 # map (\<lambda>i. to_MKL_LONG narrow
                (if complex_input then strides used ! i div 2 else strides used ! i))
              [1..<Suc signal_ndim]))]
      \<and> compute_calls (fst run) =
          [if \<not> inverse' then DftiComputeForward used out else DftiComputeBackward used out]"
    unfolding run_def used_def c using fft_mkl_input_used by blast
  from 1 2 3 show ?thesis by blast
qed

theorem C5_contiguous_copy_condition_witness:
  "valid_request \<lparr>sizes = [2, 2, 2], strides = [8, 3, 1], scalar_type = Float\<rparr> 1 True [2, 2, 2]
   \<and> valid_request \<lparr>sizes = [2, 2, 2], strides = [8, 4, 1], scalar_type = Float\<rparr> 1 True [2, 2, 2]
   \<and> Contiguous \<in> set (fst (fft_mkl False 100 engine_ok
       \<lparr>sizes = [2, 2, 2], strides = [8, 3, 1], scalar_type = Float\<rparr> 1 True True False [2] none
       True [2, 2, 2]))
   \<and> input_settings (fst (fft_mkl False 100 engine_ok
       \<lparr>sizes = [2, 2, 2], strides = [8, 3, 1], scalar_type = Float\<rparr> 1 True True False [2] none
       True [2, 2, 2]))
     = [(DFTI_INPUT_DISTANCE, LongValue 2), (DFTI_INPUT_STRIDES, LongArray [0, 1])]
   \<and> compute_calls (fst (fft_mkl False 100 engine_ok
       \<lparr>sizes = [2, 2, 2], strides = [8, 3, 1], scalar_type = Float\<rparr> 1 True True False [2] none
       True [2, 2, 2]))
     = [DftiComputeForward \<lparr>sizes = [2, 2, 2], strides = [4, 2, 1], scalar_type = Float\<rparr>
          \<lparr>sizes = [2, 2, 2], strides = [4, 2, 1], scalar_type = Float\<rparr>]
   \<and> Contiguous \<notin> set (fst (fft_mkl False 100 engine_ok
       \<lparr>sizes = [2, 2, 2], strides = [8, 4, 1], scalar_type = Float\<rparr> 1 True True False [2] none
       True [2, 2, 2]))
   \<and> input_settings (fst (fft_mkl False 100 engine_ok
       \<lparr>sizes = [2, 2, 2], strides = [8, 4, 1], scalar_type = Float\<rparr> 1 True True False [2] none
       True [2, 2, 2]))
     = [(DFTI_INPUT_DISTANCE, LongValue 4), (DFTI_INPUT_STRIDES, LongArray [0, 2])]
   \<and> compute_calls (fst (fft_mkl False 100 engine_ok
       \<lparr>sizes = [2, 2, 2], strides = [8, 4, 1], scalar_type = Float\<rparr> 1 True True False [2] none
       True [2, 2, 2]))
     = [DftiComputeForward \<lparr>sizes = [2, 2, 2], strides = [8, 4, 1], scalar_type = Float\<rparr>
          \<lparr>sizes = [2, 2, 2], strides = [4, 2, 1], scalar_type = Float\<rparr>]"
proof -
  let ?A = "\<lparr>sizes = [2, 2, 2], strides = [8, 3, 1], scalar_type = Float\<rparr>"
  let ?B = "\<lparr>sizes = [2, 2, 2], strides = [8, 4, 1], scalar_type = Float\<rparr>"
  let ?out = "\<lparr>sizes = [2, 2, 2], strides = [4, 2, 1], scalar_type = Float\<rparr>"
  have v: "valid_request ?A 1 True [2, 2, 2]" "valid_request ?B 1 True [2, 2, 2]"
    by (simp_all add: valid_request_def)
  have a: "\<exists>i\<le>(1::nat). odd ([8, 3, 1 :: int] ! i)"
    by (rule exI [of _ 1]) simp
  have b: "\<not> (\<exists>i\<le>(1::nat). odd ([8, 4, 1 :: int] ! i))"
  proof
    assume "\<exists>i\<le>(1::nat). odd ([8, 4, 1 :: int] ! i)"
    then obtain i :: nat where i: "i \<le> 1" "odd ([8, 4, 1 :: int] ! i)" by blast
    from i(1) have "i = 0 \<or> i = 1" by linarith
    with i(2) show False by auto
  qed
  have ra: "snd (fft_mkl False 100 engine_ok ?A 1 True True False [2] none True [2, 2, 2])
      = Inr ?out"
    by code_simp
  have rb: "snd (fft_mkl False 100 engine_ok ?B 1 True True False [2] none True [2, 2, 2])
      = Inr ?out"
    by code_simp
  have ca: "contiguous ?A = ?out"
    by code_simp
  have u: "[1..<Suc 1] = [1]" by simp
  have ta: "True \<and> (last (strides ?A) \<noteq> 1 \<or> (\<exists>i\<le>1. odd (strides ?A ! i)))"
    using a by simp
  have tb: "\<not> (True \<and> (last (strides ?B) \<noteq> 1 \<or> (\<exists>i\<le>1. odd (strides ?B ! i))))"
    using b by simp
  note A = C5_contiguous_copy_condition [OF v(1), of False 100 engine_ok True False "[2]" none True,
      unfolded if_P [OF ta]]
  note B = C5_contiguous_copy_condition [OF v(2), of False 100 engine_ok True False "[2]" none True,
      unfolded if_not_P [OF tb]]
  from A ta have a1: "Contiguous \<in> set (fst (fft_mkl False 100 engine_ok ?A 1 True True False
      [2] none True [2, 2, 2]))" by blast
  from B tb have b1: "Contiguous \<notin> set (fst (fft_mkl False 100 engine_ok ?B 1 True True False
      [2] none True [2, 2, 2]))" by blast
  note a2 = A [THEN conjunct2, THEN conjunct2, rule_format, OF ra]
  note b2 = B [THEN conjunct2, THEN conjunct2, rule_format, OF rb]
  from a2 have a3: "input_settings (fst (fft_mkl False 100 engine_ok ?A 1 True True False
      [2] none True [2, 2, 2]))
     = [(DFTI_INPUT_DISTANCE, LongValue 2), (DFTI_INPUT_STRIDES, LongArray [0, 1])]
   \<and> compute_calls (fst (fft_mkl False 100 engine_ok ?A 1 True True False [2] none
       True [2, 2, 2])) = [DftiComputeForward ?out ?out]"
    by (simp add: ca to_MKL_LONG_def u)
  from b2 have b3: "input_settings (fst (fft_mkl False 100 engine_ok ?B 1 True True False
      [2] none True [2, 2, 2]))
     = [(DFTI_INPUT_DISTANCE, LongValue 4), (DFTI_INPUT_STRIDES, LongArray [0, 2])]
   \<and> compute_calls (fst (fft_mkl False 100 engine_ok ?B 1 True True False [2] none
       True [2, 2, 2])) = [DftiComputeForward ?B ?out]"
    by (simp add: to_MKL_LONG_def u)
  from v a1 a3 b1 b3 show ?thesis by blast
qed

subsection \<open>C6\<close>




subsection \<open>C7\<close>

text \<open>
  C7: for a valid request whose transform completes, with a positive product \<open>n\<close> of the
  signal sizes,
  the scale parameters set on the descriptor are: none when the normalization mode is
  \<open>none\<close>; otherwise exactly one, the backward scale when the direction is inverse and the
  forward scale when it is not, with the value \<open>1 / sqrt n\<close> for \<open>by_root_n\<close> and \<open>1 / n\<close>
  for \<open>by_n\<close>, passed as a double for a double-precision buffer and cast to float for a
  single-precision one. (The values are the real numbers the two expressions denote;
  rounding is not modelled.)
\<close>

theorem C7_normalization_scale:
  assumes "valid_request self signal_ndim complex_input output_sizes"
    and "snd (fft_mkl narrow MKL_LONG_MAX engine self signal_ndim complex_input
            complex_output inverse' checked_signal_sizes normalization onesided output_sizes) = Inr out"
    and "0 < prod_list checked_signal_sizes"
  shows "scale_settings (fst (fft_mkl narrow MKL_LONG_MAX engine self signal_ndim complex_input
            complex_output inverse' checked_signal_sizes normalization onesided output_sizes)) =
     (case normalization of
        none \<Rightarrow> []
      | by_root_n \<Rightarrow>
          [(if inverse' then DFTI_BACKWARD_SCALE else DFTI_FORWARD_SCALE,
            if scalar_type self = Double then DFTI_DOUBLE else DFTI_SINGLE,
            1 / sqrt (real_of_int (prod_list checked_signal_sizes)))]
      | by_n \<Rightarrow>
          [(if inverse' then DFTI_BACKWARD_SCALE else DFTI_FORWARD_SCALE,
            if scalar_type self = Double then DFTI_DOUBLE else DFTI_SINGLE,
            1 / real_of_int (prod_list checked_signal_sizes))])"
proof -
  from fft_mkl_completed [OF assms(2)] have
    tr: "fst (fft_mkl narrow MKL_LONG_MAX engine self signal_ndim complex_input
            complex_output inverse' checked_signal_sizes normalization onesided output_sizes) =
        (if complex_input \<and> complex_needs_contiguous self signal_ndim then [Contiguous] else [])
        @ [Empty output_sizes]
        @ map Engine (dfti_calls narrow (if scalar_type self = Double then DFTI_DOUBLE else DFTI_SINGLE)
            (sizes self ! 0)
            (if complex_input \<and> complex_needs_contiguous self signal_ndim then contiguous self else self)
            out signal_ndim complex_input complex_output inverse' checked_signal_sizes normalization)
        @ (if \<not> complex_input \<and> complex_output \<and> \<not> onesided
           then [FillWithConjugateSymmetry (view_as_complex out) (map int [1..<Suc signal_ndim])]
           else [])"
    by simp
  show ?thesis
    unfolding tr scale_settings_engine_free scale_settings_dfti_calls
    by (cases normalization) simp_all
qed

theorem C7_normalization_scale_witness:
  "valid_request \<lparr>sizes = [3, 4], strides = [4, 1], scalar_type = Double\<rparr> 1 False [3, 3, 2]
   \<and> snd (fft_mkl False 100 engine_ok \<lparr>sizes = [3, 4], strides = [4, 1], scalar_type = Double\<rparr> 1
         False True True [4] by_root_n True [3, 3, 2])
     = Inr \<lparr>sizes = [3, 3, 2], strides = [6, 2, 1], scalar_type = Double\<rparr>
   \<and> (0 :: int) < prod_list [4]
   \<and> scale_settings (fst (fft_mkl False 100 engine_ok
         \<lparr>sizes = [3, 4], strides = [4, 1], scalar_type = Double\<rparr> 1
         False True True [4] by_root_n True [3, 3, 2]))
     = [(DFTI_BACKWARD_SCALE, DFTI_DOUBLE, 1 / 2)]"
proof -
  have run: "snd (fft_mkl False 100 engine_ok \<lparr>sizes = [3, 4], strides = [4, 1], scalar_type = Double\<rparr> 1
         False True True [4] by_root_n True [3, 3, 2])
     = Inr \<lparr>sizes = [3, 3, 2], strides = [6, 2, 1], scalar_type = Double\<rparr>"
    by code_simp
  have pos: "(0 :: int) < prod_list [4]" by simp
  have sq: "sqrt 4 = 2" using real_sqrt_abs [of 2] by simp
  have v: "valid_request \<lparr>sizes = [3, 4], strides = [4, 1], scalar_type = Double\<rparr> 1 False
      [3, 3, 2]"
    by (simp add: valid_request_def)
  from C7_normalization_scale [OF v run pos] sq run v show ?thesis by simp
qed

subsection \<open>C8\<close>

text \<open>
  C8: for a valid request whose transform completes, the conjugate-symmetry fill is
  invoked if and only
  if the input is real, the output is complex and the caller did not ask for a onesided
  result; it is invoked once, on the output viewed as complex elements, over the
  dimensions \<open>1, ..., signal_ndim\<close>.
\<close>

theorem C8_fill_invoked_iff_full_real_spectrum:
  assumes "valid_request self signal_ndim complex_input output_sizes"
    and "snd (fft_mkl narrow MKL_LONG_MAX engine self signal_ndim complex_input
            complex_output inverse' checked_signal_sizes normalization onesided output_sizes) = Inr out"
  shows "fill_calls (fst (fft_mkl narrow MKL_LONG_MAX engine self signal_ndim complex_input
            complex_output inverse' checked_signal_sizes normalization onesided output_sizes)) =
     (if \<not> complex_input \<and> complex_output \<and> \<not> onesided
      then [(view_as_complex out, map int [1..<Suc signal_ndim])] else [])"
proof -
  from fft_mkl_completed [OF assms(2)] have
    tr: "fst (fft_mkl narrow MKL_LONG_MAX engine self signal_ndim complex_input
            complex_output inverse' checked_signal_sizes normalization onesided output_sizes) =
        (if complex_input \<and> complex_needs_contiguous self signal_ndim then [Contiguous] else [])
        @ [Empty output_sizes]
        @ map Engine (dfti_calls narrow (if scalar_type self = Double then DFTI_DOUBLE else DFTI_SINGLE)
            (sizes self ! 0)
            (if complex_input \<and> complex_needs_contiguous self signal_ndim then contiguous self else self)
            out signal_ndim complex_input complex_output inverse' checked_signal_sizes normalization)
        @ (if \<not> complex_input \<and> complex_output \<and> \<not> onesided
           then [FillWithConjugateSymmetry (view_as_complex out) (map int [1..<Suc signal_ndim])]
           else [])"
    by simp
  show ?thesis unfolding tr by (rule fill_calls_trace)
qed

theorem C8_fill_invoked_iff_full_real_spectrum_witness:
  "valid_request \<lparr>sizes = [3, 4, 5], strides = [20, 5, 1], scalar_type = Float\<rparr> 2 False
     [3, 4, 5, 2]
   \<and> snd (fft_mkl False 100 engine_ok \<lparr>sizes = [3, 4, 5], strides = [20, 5, 1], scalar_type = Float\<rparr> 2
         False True False [4, 5] none False [3, 4, 5, 2])
     = Inr \<lparr>sizes = [3, 4, 5, 2], strides = [40, 10, 2, 1], scalar_type = Float\<rparr>
   \<and> fill_calls (fst (fft_mkl False 100 engine_ok
         \<lparr>sizes = [3, 4, 5], strides = [20, 5, 1], scalar_type = Float\<rparr> 2
         False True False [4, 5] none False [3, 4, 5, 2]))
     = [(\<lparr>sizes = [3, 4, 5], strides = [20, 5, 1], scalar_type = ComplexFloat\<rparr>, [1, 2])]"
proof -
  have run: "snd (fft_mkl False 100 engine_ok \<lparr>sizes = [3, 4, 5], strides = [20, 5, 1], scalar_type = Float\<rparr> 2
         False True False [4, 5] none False [3, 4, 5, 2])
     = Inr \<lparr>sizes = [3, 4, 5, 2], strides = [40, 10, 2, 1], scalar_type = Float\<rparr>"
    by code_simp
  have v: "view_as_complex \<lparr>sizes = [3, 4, 5, 2], strides = [40, 10, 2, 1], scalar_type = Float\<rparr>
      = \<lparr>sizes = [3, 4, 5], strides = [20, 5, 1], scalar_type = ComplexFloat\<rparr>"
    by (simp add: view_as_complex_def)
  have d: "map int [1..<Suc 2] = [1, 2]" by (simp add: upt_rec)
  have vr: "valid_request \<lparr>sizes = [3, 4, 5], strides = [20, 5, 1], scalar_type = Float\<rparr> 2 False
     [3, 4, 5, 2]"
    by (simp add: valid_request_def)
  from C8_fill_invoked_iff_full_real_spectrum [OF vr run] run v d vr show ?thesis by simp
qed

subsection \<open>C9\<close>

text \<open>
  C9: a dimension of extent 1 that is flagged as mirrored is treated like one that is not
  flagged. This holds for dimension 0 (lemma \<open>extent_one_dim0_flag_irrelevant\<close> above), but
  not for the others: when \<^verbatim>\<open>advance_index\<close>
  leaves a mirrored dimension it subtracts the output stride once (lines 82-83), which is
  right after the index \<open>size - 1 \<ge> 1\<close> and wrong after the only index 0 of a
  dimension of extent 1. For extents \<open>(2, 1, 2)\<close> with contiguous strides, flagging
  dimension 1 makes the second row overwrite addresses 10 and 11; without the flag the
  four elements go to addresses 10 to 13.
\<close>

theorem C9_size_one_mirrored_dim_drifts:
  "map_option writes (fft_fill_with_conjugate_symmetry_slice \<lparr>range_begin = 0, range_end = 4\<rparr>
       [False, True, False] [2, 1, 2] [1, 2, 2] 0 [1, 2, 2] 10
       (buffer 0 [Complex 1 1, Complex 2 0, Complex 3 0, Complex 0 4]))
     = Some [(10, 0), (11, 1), (10, 2), (11, 3)]
   \<and> map_option writes (fft_fill_with_conjugate_symmetry_slice \<lparr>range_begin = 0, range_end = 4\<rparr>
       [False, False, False] [2, 1, 2] [1, 2, 2] 0 [1, 2, 2] 10
       (buffer 0 [Complex 1 1, Complex 2 0, Complex 3 0, Complex 0 4]))
     = Some [(10, 0), (11, 1), (12, 2), (13, 3)]"
  by code_simp

subsection \<open>C10\<close>


end
